theory Spec2Isabelle
  imports Main "HOL-Library.Sublist" "HOL-Library.AList" "HOL-Library.Char_ord"
    "HOL-Library.List_Lexorder"
begin

section \<open>JavaScript string helpers used by the sources\<close>

text \<open>
  JavaScript strings are modelled as \<open>string\<close>. \<open>split\<close> is \<open>String.prototype.split\<close>
  with a one-character separator: the empty string splits into one empty piece.
\<close>

fun split :: "char \<Rightarrow> string \<Rightarrow> string list" where
  "split c [] = [[]]"
| "split c (x # xs) =
     (if x = c then [] # split c xs
      else (case split c xs of [] \<Rightarrow> [[x]] | p # ps \<Rightarrow> (x # p) # ps))"

text \<open>\<open>s.split('/').filter(Boolean)\<close>: the non-empty path segments.\<close>

definition path_parts :: "string \<Rightarrow> string list" where
  "path_parts s = filter (\<lambda>p. p \<noteq> []) (split CHR ''/'' s)"

text \<open>\<open>xs[0]\<close> of a JavaScript array: \<open>undefined\<close> (here \<open>None\<close>) when the array is empty.\<close>

definition first_elem :: "'a list \<Rightarrow> 'a option" where
  "first_elem xs = (case xs of [] \<Rightarrow> None | x # _ \<Rightarrow> Some x)"

text \<open>\<open>Set.prototype.add\<close> on a set kept in insertion order.\<close>

definition set_add :: "'a list \<Rightarrow> 'a \<Rightarrow> 'a list" where
  "set_add xs x = (if x \<in> set xs then xs else xs @ [x])"

section \<open>Thrown values and awaiting\<close>

text \<open>
  A JavaScript \<open>throw\<close> (or a rejected promise) carries any value. The sources throw
  \<open>Error\<close> objects and read their \<open>code\<close>, \<open>message\<close> and \<open>statusCode\<close>; a missing
  \<open>code\<close> or \<open>message\<close> is the empty string and a missing \<open>statusCode\<close> is 0, which is
  what \<open>String(error.code || '')\<close> and \<open>Number(error.statusCode || 0)\<close> read. \<open>Null\<close> is
  the value of \<open>let lastError = null\<close>.
\<close>

datatype thrown = Null | Err (code: string) (message: string) (statusCode: int)

text \<open>
  An asynchronous operation on a state \<open>'s\<close> returns its outcome (\<open>Inl\<close> the thrown value)
  and the state it leaves behind. \<open>then_do\<close> is \<open>await\<close> followed by the rest of the
  function body: a rejection skips the rest.
\<close>

definition then_do :: "(thrown + 'a) \<times> 's \<Rightarrow> ('a \<Rightarrow> 's \<Rightarrow> (thrown + 'b) \<times> 's) \<Rightarrow> (thrown + 'b) \<times> 's" where
  "then_do r k = (case r of (Inl e, s) \<Rightarrow> (Inl e, s) | (Inr x, s) \<Rightarrow> k x s)"

section \<open>Archive inspector (server.js)\<close>

text \<open>An entry of the uploaded archive as AdmZip reports it.\<close>

record zip_entry =
  entryName :: string
  entryIsDirectory :: bool
  entryData :: string

text \<open>The object \<open>{name, isDirectory}\<close> that \<open>inspectArchiveLayout\<close> maps each entry to.\<close>

record entry =
  name :: string
  isDirectory :: bool

record layout =
  ok :: bool
  flatten :: bool

text \<open>\<open>name.replaceAll('\\', '/').replace(/^\/+/, '')\<close>\<close>

definition normalizeZipEntryName :: "string \<Rightarrow> string" where
  "normalizeZipEntryName n =
     dropWhile (\<lambda>c. c = CHR ''/'') (map (\<lambda>c. if c = CHR 0x5C then CHR ''/'' else c) n)"

definition usable_entries :: "zip_entry list \<Rightarrow> entry list" where
  "usable_entries archive =
     filter (\<lambda>e. name e \<noteq> [] \<and> \<not> prefix ''__MACOSX/'' (name e) \<and> name e \<noteq> ''__MACOSX'')
       (map (\<lambda>z. let normalized = normalizeZipEntryName (entryName z)
                 in \<lparr>name = normalized,
                     isDirectory = (entryIsDirectory z \<or> suffix ''/'' normalized)\<rparr>) archive)"

text \<open>
  The \<open>for (const entry of entries)\<close> loop: the accumulator is \<open>(topFolders, hasRootFile)\<close>.
  An element of \<open>topFolders\<close> is \<open>parts[0]\<close>, which JavaScript evaluates to \<open>undefined\<close>
  (\<open>None\<close>) on an empty array.
\<close>

fun scan_entries :: "entry list \<Rightarrow> string option list \<times> bool \<Rightarrow> string option list \<times> bool" where
  "scan_entries [] acc = acc"
| "scan_entries (e # es) (topFolders, hasRootFile) =
     (let parts = path_parts (name e) in
      if isDirectory e then
        (if length parts \<ge> 1 then scan_entries es (set_add topFolders (first_elem parts), hasRootFile)
         else scan_entries es (topFolders, hasRootFile))
      else if length parts = 1 then scan_entries es (topFolders, True)
      else scan_entries es (set_add topFolders (first_elem parts), hasRootFile))"

definition inspectArchiveLayout :: "zip_entry list \<Rightarrow> string \<Rightarrow> layout" where
  "inspectArchiveLayout archive version =
     (let entries = usable_entries archive in
      if length entries = 0 then \<lparr>ok = False, flatten = False\<rparr>
      else
        (case scan_entries entries ([], False) of (topFolders, hasRootFile) \<Rightarrow>
          if length topFolders = 1 \<and> \<not> hasRootFile then
            (if first_elem topFolders \<noteq> Some (Some version)
             then \<lparr>ok = False, flatten = False\<rparr>
             else \<lparr>ok = True, flatten = True\<rparr>)
          else if length topFolders > 1 \<and> \<not> hasRootFile then \<lparr>ok = False, flatten = False\<rparr>
          else \<lparr>ok = True, flatten = False\<rparr>))"

text \<open>
  The vocabulary of the specification, stated on the usable entries: the top-level segment
  of an entry is its first non-empty path segment, and a root file is a file entry with
  exactly one segment.
\<close>

definition top_segments :: "entry list \<Rightarrow> string set" where
  "top_segments es = set (concat (map (\<lambda>e. case path_parts (name e) of [] \<Rightarrow> [] | p # _ \<Rightarrow> [p]) es))"

definition is_root_file :: "entry \<Rightarrow> bool" where
  "is_root_file e = (\<not> isDirectory e \<and> length (path_parts (name e)) = 1)"

definition has_root_file :: "entry list \<Rightarrow> bool" where
  "has_root_file es = list_ex is_root_file es"


section \<open>Version extractor (server.js)\<close>

text \<open>
  The directory tree that extraction works on: an association list from a path (its
  segments) to a node. \<open>fs_rm\<close> is \<open>fs.rm(p, {recursive: true, force: true})\<close>,
  \<open>fs_mkdir\<close> is \<open>fs.mkdir(p, {recursive: true})\<close> and \<open>fs_cp\<close> is
  \<open>fs.cp(src, dst, {recursive: true, force: true})\<close>.
\<close>

datatype node = File string | Dir

type_synonym path = "string list"
type_synonym filesystem = "(path \<times> node) list"

definition fs_rm :: "path \<Rightarrow> filesystem \<Rightarrow> (thrown + unit) \<times> filesystem" where
  "fs_rm p fs = (Inr (), filter (\<lambda>(q, n). \<not> prefix p q) fs)"

fun mkdirs :: "path list \<Rightarrow> filesystem \<Rightarrow> (thrown + unit) \<times> filesystem" where
  "mkdirs [] fs = (Inr (), fs)"
| "mkdirs (q # qs) fs =
     (case map_of fs q of
        None \<Rightarrow> mkdirs qs (fs @ [(q, Dir)])
      | Some Dir \<Rightarrow> mkdirs qs fs
      | Some (File d) \<Rightarrow> (Inl (Err ''EEXIST'' ''file already exists'' 0), fs))"

definition fs_mkdir :: "path \<Rightarrow> filesystem \<Rightarrow> (thrown + unit) \<times> filesystem" where
  "fs_mkdir p fs = mkdirs (filter (\<lambda>q. q \<noteq> []) (prefixes p)) fs"

text \<open>\<open>fs.mkdtemp\<close>: the operating system makes the fresh directory \<open>p\<close>.\<close>

definition fs_mkdtemp :: "path \<Rightarrow> filesystem \<Rightarrow> (thrown + unit) \<times> filesystem" where
  "fs_mkdtemp p fs = (Inr (), fs @ [(p, Dir)])"

definition fs_writeFile :: "path \<Rightarrow> string \<Rightarrow> filesystem \<Rightarrow> (thrown + unit) \<times> filesystem" where
  "fs_writeFile p d fs =
     (case map_of fs p of
        Some Dir \<Rightarrow> (Inl (Err ''EISDIR'' ''illegal operation on a directory'' 0), fs)
      | _ \<Rightarrow> (Inr (), AList.update p (File d) fs))"

fun cp_nodes :: "(path \<times> node) list \<Rightarrow> filesystem \<Rightarrow> (thrown + unit) \<times> filesystem" where
  "cp_nodes [] fs = (Inr (), fs)"
| "cp_nodes ((q, Dir) # ns) fs = then_do (fs_mkdir q fs) (\<lambda>_. cp_nodes ns)"
| "cp_nodes ((q, File d) # ns) fs =
     then_do (fs_mkdir (butlast q) fs) (\<lambda>_ fs1.
     then_do (fs_writeFile q d fs1) (\<lambda>_. cp_nodes ns))"

definition fs_cp :: "path \<Rightarrow> path \<Rightarrow> filesystem \<Rightarrow> (thrown + unit) \<times> filesystem" where
  "fs_cp src dst fs =
     (if map_of fs src = None then (Inl (Err ''ENOENT'' ''no such file or directory'' 0), fs)
      else cp_nodes (map (\<lambda>(q, n). (dst @ drop (length src) q, n))
                      (filter (\<lambda>(q, n). prefix src q) fs)) fs)"

text \<open>
  \<open>zip.extractAllTo(tempDir, true)\<close> of the AdmZip library, from its documentation: every
  entry of the archive is written below the target directory at its own path, a directory
  entry as a directory, a file entry as a file with the entry's data.
\<close>

definition extractAllTo :: "zip_entry list \<Rightarrow> path \<Rightarrow> filesystem \<Rightarrow> (thrown + unit) \<times> filesystem" where
  "extractAllTo archive target fs =
     cp_nodes (map (\<lambda>z. (target @ path_parts (normalizeZipEntryName (entryName z)),
                           if entryIsDirectory z then Dir else File (entryData z))) archive) fs"

definition ZIP_STRUCTURE_MISMATCH :: thrown where
  "ZIP_STRUCTURE_MISMATCH = Err ''ZIP_STRUCTURE_MISMATCH'' ''zip_structure_mismatch'' 0"

text \<open>
  \<open>tempDir\<close> is the fresh directory that \<open>fs.mkdtemp\<close> creates. The \<open>finally\<close> block
  removes it whether the body succeeded or threw.
\<close>

definition extractZipToVersion ::
  "zip_entry list \<Rightarrow> string \<Rightarrow> path \<Rightarrow> path \<Rightarrow> filesystem \<Rightarrow> (thrown + unit) \<times> filesystem" where
  "extractZipToVersion archive version uploadRoot tempDir fs =
     (let layout = inspectArchiveLayout archive version in
      if \<not> ok layout then (Inl ZIP_STRUCTURE_MISMATCH, fs)
      else
        then_do (fs_mkdtemp tempDir fs) (\<lambda>_ fs0.
          let destDir = uploadRoot @ [version];
              body =
                then_do (extractAllTo archive tempDir fs0) (\<lambda>_ fs1.
                then_do (fs_rm destDir fs1) (\<lambda>_ fs2.
                then_do (fs_mkdir destDir fs2) (\<lambda>_ fs3.
                  let sourceDir = (if flatten layout then tempDir @ [version] else tempDir)
                  in fs_cp sourceDir destDir fs3)))
          in (case fs_rm tempDir (snd body) of
                (Inl e, fs4) \<Rightarrow> (Inl e, fs4)
              | (Inr _, fs4) \<Rightarrow> (fst body, fs4))))"


text \<open>Example archives.\<close>

definition zip_two_folders :: "zip_entry list" where
  "zip_two_folders =
     [\<lparr>entryName = ''assets/a.bin'', entryIsDirectory = False, entryData = ''A''\<rparr>,
      \<lparr>entryName = ''scripts/b.js'', entryIsDirectory = False, entryData = ''B''\<rparr>]"

definition zip_folder_99 :: "zip_entry list" where
  "zip_folder_99 =
     [\<lparr>entryName = ''99/'', entryIsDirectory = True, entryData = ''''\<rparr>,
      \<lparr>entryName = ''99/config.json'', entryIsDirectory = False, entryData = ''{}''\<rparr>,
      \<lparr>entryName = ''__MACOSX/99/._config.json'', entryIsDirectory = False, entryData = ''x''\<rparr>]"

section \<open>The world the server runs in\<close>

text \<open>
  Values that travel through \<open>JSON.parse\<close> and \<open>JSON.stringify\<close>. An object keeps its
  properties in insertion order, as JavaScript does.
\<close>

datatype json =
    JNull
  | JBool bool
  | JNum int
  | JStr string
  | JArr "json list"
  | JObj "(string \<times> json) list"

text \<open>
  \<open>JSON.stringify(v, null, 2)\<close> and \<open>JSON.parse\<close> belong to the JavaScript runtime, not to
  the repository: they are parameters of the model. \<open>JSON_parse\<close> returns \<open>None\<close> where
  the runtime throws a \<open>SyntaxError\<close>.
\<close>

record runtime =
  JSON_stringify :: "json \<Rightarrow> string"
  JSON_parse :: "string \<Rightarrow> json option"

text \<open>
  The contract of the runtime that the registry relies on: a document written by
  \<open>atomicWriteState\<close> (the serialisation followed by a newline) parses back to itself.
\<close>

definition lawful :: "runtime \<Rightarrow> bool" where
  "lawful rt = (\<forall>v. JSON_parse rt (JSON_stringify rt v @ [CHR 0x0A]) = Some v)"

text \<open>A request sent to the object store through the SDK.\<close>

datatype cos_request =
    GetBucket string string nat
  | DeleteMultipleObject "string list"
  | PutObject string string

text \<open>
  The state of everything outside the process:
  \<^item> \<open>files\<close>: the regular files of the registry area (state file, its temporary file and
    the lock file), by path; I/O failures other than a missing or an existing file are
    outside the model;
  \<^item> \<open>tree\<close>: the directory tree of the CDN area, read by \<open>fs.readdir\<close> and \<open>fs.readFile\<close>;
  \<^item> \<open>clock\<close>, \<open>ticks\<close>: \<open>clock n\<close> is what the \<open>n\<close>-th evaluation of
    \<open>new Date().toISOString()\<close> returns;
  \<^item> \<open>slept\<close>: the delays of the \<open>sleep\<close> calls made so far;
  \<^item> \<open>others\<close>: what other processes do to \<open>files\<close> while this one sleeps for the
    \<open>n\<close>-th time;
  \<^item> \<open>bucket\<close>: the objects of the object-store bucket, key and body;
  \<^item> \<open>faults\<close>: the outcome the network imposes on the coming SDK calls, one per call:
    \<open>Some e\<close> makes the call fail with \<open>e\<close>; when the list is used up calls succeed;
  \<^item> \<open>requests\<close>: the SDK calls issued so far.
\<close>

record world =
  files :: "string \<rightharpoonup> string"
  tree :: filesystem
  clock :: "nat \<Rightarrow> string"
  ticks :: nat
  slept :: "int list"
  others :: "nat \<Rightarrow> (string \<rightharpoonup> string) \<Rightarrow> (string \<rightharpoonup> string)"
  bucket :: "(string \<times> string) list"
  faults :: "thrown option list"
  requests :: "cos_request list"

text \<open>\<open>sleep(ms)\<close>: the process is suspended and the other processes run.\<close>

definition sleep :: "int \<Rightarrow> world \<Rightarrow> world" where
  "sleep ms w = w\<lparr>slept := slept w @ [ms], files := others w (length (slept w)) (files w)\<rparr>"

text \<open>\<open>new Date().toISOString()\<close>\<close>

definition now :: "world \<Rightarrow> string \<times> world" where
  "now w = (clock w (ticks w), w\<lparr>ticks := Suc (ticks w)\<rparr>)"

text \<open>
  The environment variables and path helpers the sources read. \<open>getLegacyHotupdatePrefixRoot\<close>
  is imported by \<open>lib/storage.js\<close> from \<open>lib/paths.js\<close>, whose copy in the repository does
  not define it: its value is a parameter.
\<close>

record config =
  statePath :: string
  STORAGE_DRIVER :: string
  PULZZ_COS_MOCK_ROOT :: string
  PULZZ_CDN_ROOT :: string
  TENCENT_SECRET_ID :: string
  TENCENT_SECRET_KEY :: string
  TENCENT_COS_BUCKET :: string
  TENCENT_COS_REGION :: string
  COS_RETRY_COUNT :: int
  legacyHotupdatePrefixRoot :: string

section \<open>Retrying transient failures (lib/storage.js)\<close>

definition toLowerCase :: "string \<Rightarrow> string" where
  "toLowerCase s =
     map (\<lambda>c. if CHR ''A'' \<le> c \<and> c \<le> CHR ''Z'' then char_of (of_char c + (32::nat)) else c) s"

text \<open>\<open>s.includes(t)\<close>\<close>

definition str_includes :: "string \<Rightarrow> string \<Rightarrow> bool" where
  "str_includes s t = sublist t s"

fun isRetryableCosError :: "thrown \<Rightarrow> bool" where
  "isRetryableCosError Null = False"
| "isRetryableCosError (Err c m sc) =
     (let message = toLowerCase m in
      if sc \<ge> 500 then True
      else if c \<in> set [''ETIMEDOUT'', ''ECONNRESET'', ''EAI_AGAIN'', ''ESOCKETTIMEDOUT''] then True
      else if c \<in> set [''RequestTimeout'', ''InternalError'', ''ServiceUnavailable'', ''SlowDown'',
                        ''NetworkingError''] then True
      else str_includes message ''timeout'' \<or> str_includes message ''timed out''
           \<or> str_includes message ''socket hang up'')"

text \<open>
  The loop of \<open>withRetry\<close>, entered with the counter \<open>i\<close> and the last error seen. The
  retry count and the base delay are JavaScript numbers; they are modelled as integers.
\<close>

function withRetry_loop ::
  "int \<Rightarrow> int \<Rightarrow> int \<Rightarrow> (world \<Rightarrow> (thrown + 'a) \<times> world) \<Rightarrow> thrown \<Rightarrow> world
     \<Rightarrow> (thrown + 'a) \<times> world" where
  "withRetry_loop i retries baseDelay task lastError w =
     (if i \<le> retries then
        (case task w of
           (Inr v, w1) \<Rightarrow> (Inr v, w1)
         | (Inl error, w1) \<Rightarrow>
             if i \<ge> retries \<or> \<not> isRetryableCosError error then (Inl error, w1)
             else withRetry_loop (i + 1) retries baseDelay task error
                    (sleep (baseDelay * (i + 1)) w1))
      else (Inl lastError, w))"
  by pat_completeness auto
termination
  by (relation "measure (\<lambda>(i, retries, baseDelay, task, lastError, w). nat (retries + 1 - i))") auto

declare withRetry_loop.simps [simp del]

definition withRetry ::
  "(world \<Rightarrow> (thrown + 'a) \<times> world) \<Rightarrow> int \<Rightarrow> int \<Rightarrow> world \<Rightarrow> (thrown + 'a) \<times> world" where
  "withRetry task retries baseDelay w = withRetry_loop 0 retries baseDelay task Null w"

text \<open>
  The specification's reading of the retry policy: \<open>attempts task baseDelay n w\<close> is the
  world in which invocation \<open>n + 1\<close> of the task starts when each of the \<open>n\<close> invocations
  before it failed and was followed by a sleep of \<open>baseDelay\<close> times its attempt number.
\<close>

fun attempts :: "(world \<Rightarrow> (thrown + 'a) \<times> world) \<Rightarrow> int \<Rightarrow> nat \<Rightarrow> world \<Rightarrow> world" where
  "attempts task baseDelay 0 w = w"
| "attempts task baseDelay (Suc n) w =
     sleep (baseDelay * (int n + 1)) (snd (task (attempts task baseDelay n w)))"

section \<open>The object store as the SDK presents it\<close>

text \<open>
  The result of \<open>cos.getBucket\<close> as the sources read it: the keys of \<open>page.Contents\<close> and
  whether \<open>String(page.IsTruncated) === 'true'\<close>.
\<close>

record page =
  Contents :: "string list"
  IsTruncated :: bool

text \<open>
  The listing contract of the object store (the SDK is not part of the repository): the
  keys that start with the prefix and come after the marker, in ascending order, at most
  \<open>maxKeys\<close> of them, flagged as truncated when more remain.
\<close>

definition list_objects :: "(string \<times> string) list \<Rightarrow> string \<Rightarrow> string \<Rightarrow> nat \<Rightarrow> page" where
  "list_objects objs pfx marker maxKeys =
     (let ks = sort (filter (\<lambda>k. prefix pfx k \<and> marker < k) (map fst objs))
      in \<lparr>Contents = take maxKeys ks, IsTruncated = (maxKeys < length ks)\<rparr>)"

text \<open>
  One SDK call wrapped in a promise, \<open>new Promise((resolve, reject) => cos.op(params,
  (error, data) => error ? reject(error) : resolve(data)))\<close>: the request is issued, and
  the network decides whether it fails.
\<close>

definition sdk_call :: "cos_request \<Rightarrow> (world \<Rightarrow> 'a \<times> world) \<Rightarrow> world \<Rightarrow> (thrown + 'a) \<times> world" where
  "sdk_call req op w =
     (let w1 = w\<lparr>requests := requests w @ [req]\<rparr> in
      case faults w1 of
        [] \<Rightarrow> (case op w1 of (x, w2) \<Rightarrow> (Inr x, w2))
      | None # fs \<Rightarrow> (case op (w1\<lparr>faults := fs\<rparr>) of (x, w2) \<Rightarrow> (Inr x, w2))
      | Some e # fs \<Rightarrow> (Inl e, w1\<lparr>faults := fs\<rparr>))"

definition cos_getBucket :: "string \<Rightarrow> string \<Rightarrow> nat \<Rightarrow> world \<Rightarrow> (thrown + page) \<times> world" where
  "cos_getBucket pfx marker maxKeys =
     sdk_call (GetBucket pfx marker maxKeys) (\<lambda>w. (list_objects (bucket w) pfx marker maxKeys, w))"



definition COS_CONFIG_MISSING :: thrown where
  "COS_CONFIG_MISSING = Err ''COS_CONFIG_MISSING'' ''cos_config_missing'' 0"

definition createCosClient :: "config \<Rightarrow> world \<Rightarrow> (thrown + unit) \<times> world" where
  "createCosClient cfg w =
     (if TENCENT_SECRET_ID cfg = [] \<or> TENCENT_SECRET_KEY cfg = [] \<or> TENCENT_COS_BUCKET cfg = []
         \<or> TENCENT_COS_REGION cfg = []
      then (Inl COS_CONFIG_MISSING, w) else (Inr (), w))"

text \<open>
  \<open>withRetry(task)\<close> as \<open>lib/storage.js\<close> calls it, without options:
  \<open>retries = COS_RETRY_COUNT\<close> and \<open>baseDelay = 250\<close>.
\<close>

definition withRetry_default :: "config \<Rightarrow> (world \<Rightarrow> (thrown + 'a) \<times> world) \<Rightarrow> world \<Rightarrow> (thrown + 'a) \<times> world" where
  "withRetry_default cfg task = withRetry task (COS_RETRY_COUNT cfg) 250"

text \<open>The keys of the bucket under a prefix that the pagination has not reached yet.\<close>

definition keys_after :: "string \<Rightarrow> string \<Rightarrow> world \<Rightarrow> string list" where
  "keys_after pfx marker w = filter (\<lambda>k. prefix pfx k \<and> marker < k) (map fst (bucket w))"

text \<open>Facts about retried listing calls, needed to show that the pagination loops end.\<close>

lemma sleep_bucket: "bucket (sleep ms w) = bucket w"
  by (simp add: sleep_def)


lemma withRetry_loop_result:
  assumes sl: "\<And>ms w. I w \<Longrightarrow> I (sleep ms w)"
  shows "\<forall>w. I w \<longrightarrow> I (snd (task w)) \<Longrightarrow> I w \<Longrightarrow>
         withRetry_loop i retries baseDelay task lastError w = (Inr v, w') \<Longrightarrow>
         \<exists>w0. I w0 \<and> task w0 = (Inr v, w')"
proof (induction i retries baseDelay task lastError w rule: withRetry_loop.induct)
  case (1 i retries baseDelay task lastError w)
  obtain r w1 where t: "task w = (r, w1)" by (cases "task w")
  have "I (snd (task w))" using "1.prems"(1,2) by blast
  then have w1: "I w1" by (simp add: t)
  show ?case
  proof (cases "i \<le> retries")
    case False
    then show ?thesis using "1.prems"(3) by (subst (asm) withRetry_loop.simps) simp
  next
    case le: True
    show ?thesis
    proof (cases r)
      case (Inr v')
      then show ?thesis using le t "1.prems"(2,3)
        by (subst (asm) withRetry_loop.simps) auto
    next
      case (Inl error)
      show ?thesis
      proof (cases "i \<ge> retries \<or> \<not> isRetryableCosError error")
        case True
        then show ?thesis using le t Inl "1.prems"(3)
          by (subst (asm) withRetry_loop.simps) auto
      next
        case False
        have s: "I (sleep (baseDelay * (i + 1)) w1)" using w1 by (rule sl)
        have "withRetry_loop (i + 1) retries baseDelay task error
                    (sleep (baseDelay * (i + 1)) w1) = (Inr v, w')"
          using le t Inl False "1.prems"(3) by (subst (asm) withRetry_loop.simps) auto
        then show ?thesis
          by (rule "1.IH"[OF le t[symmetric] Inl False "1.prems"(1) s])
      qed
    qed
  qed
qed

lemma getBucket_bucket: "bucket (snd (cos_getBucket pfx marker n w)) = bucket w"
  by (simp add: cos_getBucket_def sdk_call_def Let_def split: list.splits option.splits)

lemma getBucket_page:
  "cos_getBucket pfx marker n w = (Inr pg, w') \<Longrightarrow> pg = list_objects (bucket w) pfx marker n"
  by (auto simp: cos_getBucket_def sdk_call_def Let_def split: list.splits option.splits)

lemma withRetry_getBucket:
  assumes "withRetry (cos_getBucket pfx marker n) retries d w = (Inr pg, w')"
  shows "bucket w' = bucket w \<and> pg = list_objects (bucket w) pfx marker n"
proof -
  let ?I = "\<lambda>x. bucket x = bucket w"
  have a: "\<And>x. ?I x \<Longrightarrow> ?I (snd (cos_getBucket pfx marker n x))"
    by (simp add: getBucket_bucket)
  have b: "\<And>ms x. ?I x \<Longrightarrow> ?I (sleep ms x)" by (simp add: sleep_bucket)
  from withRetry_loop_result[of ?I, OF b _ _ assms[unfolded withRetry_def]] a
  obtain w0 where w0: "bucket w0 = bucket w" "cos_getBucket pfx marker n w0 = (Inr pg, w')"
    by auto
  have "bucket w' = bucket w0" using getBucket_bucket[of pfx marker n w0] w0(2) by simp
  moreover have "pg = list_objects (bucket w0) pfx marker n" using w0(2) by (rule getBucket_page)
  ultimately show ?thesis using w0(1) by simp
qed

lemma page_keys_after:
  "k \<in> set (Contents (list_objects objs pfx marker n)) \<Longrightarrow> k \<in> fst ` set objs \<and> prefix pfx k \<and> marker < k"
  by (auto simp: list_objects_def Let_def dest: in_set_takeD)

lemma keys_after_decreases:
  assumes "m \<in> set (keys_after pfx marker w)" and "bucket w' = bucket w"
  shows "length (keys_after pfx m w') < length (keys_after pfx marker w)"
proof -
  have "keys_after pfx m w' = filter (\<lambda>k. m < k) (keys_after pfx marker w)"
    using assms by (auto simp: keys_after_def intro!: filter_cong)
  moreover have "length (filter (\<lambda>k. m < k) (keys_after pfx marker w))
      < length (keys_after pfx marker w)"
    using assms(1) by (intro length_filter_less[of m]) auto
  ultimately show ?thesis by simp
qed

lemma page_step:
  assumes "withRetry_default cfg (cos_getBucket pfx marker n) w = (Inr pg, w1)"
      and "keys = filter (\<lambda>k. k \<noteq> []) (Contents pg)" and "keys \<noteq> []"
  shows "length (keys_after pfx (last keys) w1) < length (keys_after pfx marker w)"
proof -
  have b: "bucket w1 = bucket w" and p: "pg = list_objects (bucket w) pfx marker n"
    using withRetry_getBucket[OF assms(1)[unfolded withRetry_default_def]] by simp_all
  have "last keys \<in> set keys" using assms(3) by simp
  then have "last keys \<in> set (Contents pg)" using assms(2) by simp
  then have "last keys \<in> set (keys_after pfx marker w)"
    unfolding p keys_after_def using page_keys_after by fastforce
  then show ?thesis using b by (rule keys_after_decreases)
qed




section \<open>Discovering versions (lib/storage.js)\<close>

text \<open>\<open>/^\d+$/.test(s)\<close>\<close>

definition all_digits :: "string \<Rightarrow> bool" where
  "all_digits s = (s \<noteq> [] \<and> list_all (\<lambda>c. CHR ''0'' \<le> c \<and> c \<le> CHR ''9'') s)"

text \<open>\<open>Number(s)\<close> of a string of digits.\<close>

definition Number :: "string \<Rightarrow> nat" where
  "Number s = fold (\<lambda>c n. 10 * n + (of_char c - 48)) s 0"

text \<open>\<open>xs.sort((a, b) => Number(b) - Number(a))\<close>: descending by value, stable.\<close>

definition sort_versions :: "string list \<Rightarrow> string list" where
  "sort_versions xs = sort_key (\<lambda>s. - int (Number s)) xs"

text \<open>\<open>path.join\<close> of path strings, as the segments of the resulting path.\<close>

definition path_join :: "string list \<Rightarrow> path" where
  "path_join ps = concat (map path_parts ps)"

text \<open>\<open>fs.readdir(dir, {withFileTypes: true})\<close> on the tree: name and node of every child.\<close>

definition fs_readdir :: "path \<Rightarrow> filesystem \<Rightarrow> thrown + (string \<times> node) list" where
  "fs_readdir dir fs =
     (if map_of fs dir = Some Dir
      then Inr (map (\<lambda>(q, n). (last q, n)) (filter (\<lambda>(q, n). q \<noteq> [] \<and> butlast q = dir) fs))
      else Inl (Err ''ENOENT'' ''no such file or directory'' 0))"

text \<open>The body of \<open>listVersionsByFsRoot\<close>: a failing \<open>readdir\<close> is caught and gives the
  empty list.\<close>

definition versions_under :: "path \<Rightarrow> filesystem \<Rightarrow> string list" where
  "versions_under rootDir fs =
     (case fs_readdir rootDir fs of
        Inl e \<Rightarrow> []
      | Inr entries \<Rightarrow>
          sort_versions (map fst (filter (\<lambda>(nm, n). n = Dir \<and> all_digits nm) entries)))"

definition listVersionsByFsRoot :: "path \<Rightarrow> world \<Rightarrow> (thrown + string list) \<times> world" where
  "listVersionsByFsRoot rootDir w = (Inr (versions_under rootDir (tree w)), w)"

text \<open>The loop of \<open>scan\<close> in \<open>listVersionsFromCos\<close>; \<open>discovered\<close> is the set, in insertion
  order.\<close>

definition add_discovered :: "string \<Rightarrow> string list \<Rightarrow> string list \<Rightarrow> string list" where
  "add_discovered pfx keys discovered =
     fold (\<lambda>key d.
             let rest = drop (length pfx) key;
                 version = (case split CHR ''/'' rest of [] \<Rightarrow> [] | p # _ \<Rightarrow> p)
             in if all_digits version then set_add d version else d) keys discovered"

function scan_loop ::
  "config \<Rightarrow> string \<Rightarrow> string \<Rightarrow> string list \<Rightarrow> world \<Rightarrow> (thrown + string list) \<times> world" where
  "scan_loop cfg pfx marker discovered w =
     (case withRetry_default cfg (cos_getBucket pfx marker 1000) w of
        (Inl e, w1) \<Rightarrow> (Inl e, w1)
      | (Inr pg, w1) \<Rightarrow>
          (let keys = filter (\<lambda>k. k \<noteq> []) (Contents pg);
               discovered1 = add_discovered pfx keys discovered
           in if \<not> IsTruncated pg \<or> keys = [] then (Inr discovered1, w1)
              else scan_loop cfg pfx (last keys) discovered1 w1))"
  by pat_completeness auto
termination scan_loop
proof (relation "measure (\<lambda>(cfg, pfx, marker, discovered, w). length (keys_after pfx marker w))",
    goal_cases)
  case 1
  show ?case by simp
next
  case (2 cfg pfx marker discovered w x y pg keys discovered1)
  then have "withRetry_default cfg (cos_getBucket pfx marker 1000) w = (Inr pg, y)"
    by simp
  from page_step[OF this 2(3)] 2(5) show ?case by simp
qed

declare scan_loop.simps [simp del]

definition listVersionsFromCos :: "config \<Rightarrow> string \<Rightarrow> world \<Rightarrow> (thrown + string list) \<times> world" where
  "listVersionsFromCos cfg platform w =
     then_do (createCosClient cfg w) (\<lambda>_ w1.
     then_do (scan_loop cfg (legacyHotupdatePrefixRoot cfg @ ''/'') [] [] w1) (\<lambda>discovered w2.
       (Inr (sort_versions discovered), w2)))"

definition storage_driver :: "config \<Rightarrow> string" where
  "storage_driver cfg = toLowerCase (if STORAGE_DRIVER cfg = [] then ''local'' else STORAGE_DRIVER cfg)"

definition listAvailableVersions :: "config \<Rightarrow> string \<Rightarrow> world \<Rightarrow> (thrown + string list) \<times> world" where
  "listAvailableVersions cfg platform w =
     (if storage_driver cfg = ''cos'' then
        (if PULZZ_COS_MOCK_ROOT cfg \<noteq> [] then
           listVersionsByFsRoot (path_join [PULZZ_COS_MOCK_ROOT cfg, legacyHotupdatePrefixRoot cfg]) w
         else listVersionsFromCos cfg platform w)
      else
        (let localRoot =
               (if PULZZ_CDN_ROOT cfg \<noteq> []
                then path_join [PULZZ_CDN_ROOT cfg, legacyHotupdatePrefixRoot cfg]
                else path_join [''/opt/pulzz-hotupdate'', ''cdn'', legacyHotupdatePrefixRoot cfg])
         in listVersionsByFsRoot localRoot w))"

section \<open>Version registry (lib/state.js)\<close>

text \<open>The operations of \<open>node:fs/promises\<close> on the registry area.\<close>

definition ENOENT :: thrown where
  "ENOENT = Err ''ENOENT'' ''no such file or directory'' 0"

definition EEXIST :: thrown where
  "EEXIST = Err ''EEXIST'' ''file already exists'' 0"

definition file_mkdir :: "world \<Rightarrow> (thrown + unit) \<times> world" where
  "file_mkdir w = (Inr (), w)"

definition file_access :: "string \<Rightarrow> world \<Rightarrow> (thrown + unit) \<times> world" where
  "file_access p w = (if files w p = None then (Inl ENOENT, w) else (Inr (), w))"

definition file_readFile :: "string \<Rightarrow> world \<Rightarrow> (thrown + string) \<times> world" where
  "file_readFile p w = (case files w p of None \<Rightarrow> (Inl ENOENT, w) | Some text \<Rightarrow> (Inr text, w))"

definition file_writeFile :: "string \<Rightarrow> string \<Rightarrow> world \<Rightarrow> (thrown + unit) \<times> world" where
  "file_writeFile p text w = (Inr (), w\<lparr>files := (files w)(p \<mapsto> text)\<rparr>)"

definition file_rename :: "string \<Rightarrow> string \<Rightarrow> world \<Rightarrow> (thrown + unit) \<times> world" where
  "file_rename src dst w =
     (case files w src of
        None \<Rightarrow> (Inl ENOENT, w)
      | Some text \<Rightarrow> (Inr (), w\<lparr>files := ((files w)(src := None))(dst \<mapsto> text)\<rparr>))"

text \<open>\<open>fs.open(p, 'wx')\<close>: exclusive creation.\<close>

definition file_open_wx :: "string \<Rightarrow> world \<Rightarrow> (thrown + unit) \<times> world" where
  "file_open_wx p w =
     (if files w p \<noteq> None then (Inl EEXIST, w) else (Inr (), w\<lparr>files := (files w)(p \<mapsto> [])\<rparr>))"

text \<open>\<open>fs.rm(p, {force: true})\<close>\<close>

definition file_rm :: "string \<Rightarrow> world \<Rightarrow> world" where
  "file_rm p w = w\<lparr>files := (files w)(p := None)\<rparr>"

text \<open>
  The registry document the functions of \<open>state.js\<close> pass around: \<open>normalizeState\<close>
  guarantees a string and two arrays, whose elements are whatever the file held.
\<close>

record state =
  currentVersion :: string
  versions :: "json list"
  history :: "json list"

text \<open>\<open>raw?.k\<close>: \<open>undefined\<close> (\<open>None\<close>) unless \<open>raw\<close> is an object with the property.\<close>

definition opt_prop :: "json \<Rightarrow> string \<Rightarrow> json option" where
  "opt_prop raw k = (case raw of JObj kvs \<Rightarrow> map_of kvs k | _ \<Rightarrow> None)"

definition normalizeState :: "json \<Rightarrow> state" where
  "normalizeState raw =
     \<lparr>currentVersion = (case opt_prop raw ''currentVersion'' of Some (JStr s) \<Rightarrow> s | _ \<Rightarrow> []),
      versions = (case opt_prop raw ''versions'' of Some (JArr xs) \<Rightarrow> xs | _ \<Rightarrow> []),
      history = (case opt_prop raw ''history'' of Some (JArr xs) \<Rightarrow> xs | _ \<Rightarrow> [])\<rparr>"

text \<open>The object \<open>{currentVersion, versions, history}\<close>.\<close>

definition state_json :: "state \<Rightarrow> json" where
  "state_json st =
     JObj [(''currentVersion'', JStr (currentVersion st)),
           (''versions'', JArr (versions st)),
           (''history'', JArr (history st))]"

definition DEFAULT_STATE :: json where
  "DEFAULT_STATE = JObj [(''currentVersion'', JStr []), (''versions'', JArr []), (''history'', JArr [])]"

definition atomicWriteState :: "runtime \<Rightarrow> config \<Rightarrow> json \<Rightarrow> world \<Rightarrow> (thrown + unit) \<times> world" where
  "atomicWriteState rt cfg st w =
     (let tempPath = statePath cfg @ ''.tmp'';
          normalized = normalizeState st;
          content = JSON_stringify rt (state_json normalized) @ [CHR 0x0A]
      in then_do (file_mkdir w) (\<lambda>_ w1.
         then_do (file_writeFile tempPath content w1) (\<lambda>_ w2.
         file_rename tempPath (statePath cfg) w2)))"

definition ensureStateFile :: "runtime \<Rightarrow> config \<Rightarrow> world \<Rightarrow> (thrown + unit) \<times> world" where
  "ensureStateFile rt cfg w =
     then_do (file_mkdir w) (\<lambda>_ w1.
       case file_access (statePath cfg) w1 of
         (Inr _, w2) \<Rightarrow> (Inr (), w2)
       | (Inl _, w2) \<Rightarrow> atomicWriteState rt cfg DEFAULT_STATE w2)"

definition readState :: "runtime \<Rightarrow> config \<Rightarrow> world \<Rightarrow> (thrown + state) \<times> world" where
  "readState rt cfg w =
     then_do (ensureStateFile rt cfg w) (\<lambda>_ w1.
     then_do (file_readFile (statePath cfg) w1) (\<lambda>text w2.
       let json = (case JSON_parse rt text of Some j \<Rightarrow> j | None \<Rightarrow> DEFAULT_STATE)
       in (Inr (normalizeState json), w2)))"

definition TypeError :: thrown where
  "TypeError = Err [] ''Cannot read properties of null'' 0"

text \<open>\<open>v.version === version\<close>: reading a property of \<open>null\<close> throws.\<close>

definition version_is :: "json \<Rightarrow> string \<Rightarrow> thrown + bool" where
  "version_is v version =
     (case v of
        JNull \<Rightarrow> Inl TypeError
      | JObj kvs \<Rightarrow> Inr (map_of kvs ''version'' = Some (JStr version))
      | _ \<Rightarrow> Inr False)"

text \<open>\<open>versions.find(...)\<close> and \<open>versions.some(...)\<close>: the index of the first record of the
  version, looking no further.\<close>

fun find_version :: "json list \<Rightarrow> string \<Rightarrow> thrown + nat option" where
  "find_version [] version = Inr None"
| "find_version (v # vs) version =
     (case version_is v version of
        Inl e \<Rightarrow> Inl e
      | Inr True \<Rightarrow> Inr (Some 0)
      | Inr False \<Rightarrow>
          (case find_version vs version of
             Inl e \<Rightarrow> Inl e
           | Inr None \<Rightarrow> Inr None
           | Inr (Some i) \<Rightarrow> Inr (Some (Suc i))))"

text \<open>\<open>obj.k = x\<close> and \<open>{...obj, k: x}\<close> on an object.\<close>

definition set_prop :: "json \<Rightarrow> string \<Rightarrow> json \<Rightarrow> json" where
  "set_prop obj k x = (case obj of JObj kvs \<Rightarrow> JObj (AList.update k x kvs) | _ \<Rightarrow> obj)"

definition upsertVersion :: "json list \<Rightarrow> string \<Rightarrow> world \<Rightarrow> (thrown + json list \<times> bool) \<times> world" where
  "upsertVersion vs version w =
     (case now w of (t, w1) \<Rightarrow>
        (case find_version vs version of
           Inl e \<Rightarrow> (Inl e, w1)
         | Inr (Some i) \<Rightarrow> (Inr (vs[i := set_prop (vs ! i) ''uploadedAt'' (JStr t)], True), w1)
         | Inr None \<Rightarrow>
             (Inr (vs @ [JObj [(''version'', JStr version), (''uploadedAt'', JStr t)]], False), w1)))"

definition recordUpload :: "runtime \<Rightarrow> config \<Rightarrow> string \<Rightarrow> world \<Rightarrow> (thrown + bool) \<times> world" where
  "recordUpload rt cfg version w =
     then_do (readState rt cfg w) (\<lambda>st w1.
     then_do (upsertVersion (versions st) version w1) (\<lambda>(vs, overwrite) w2.
       case now w2 of (t, w3) \<Rightarrow>
         let hist = history st @
               [JObj [(''action'', JStr (if overwrite then ''upload_overwrite'' else ''upload'')),
                      (''version'', JStr version),
                      (''at'', JStr t)]];
             nextState = state_json (st\<lparr>versions := vs, history := hist\<rparr>)
         in then_do (atomicWriteState rt cfg nextState w3) (\<lambda>_ w4. (Inr overwrite, w4))))"

text \<open>The \<open>map\<close> of \<open>setCurrentVersion\<close>: every record of the version gets a fresh
  \<open>publishedAt\<close>.\<close>

fun publish_records :: "json list \<Rightarrow> string \<Rightarrow> world \<Rightarrow> (thrown + json list) \<times> world" where
  "publish_records [] version w = (Inr [], w)"
| "publish_records (v # vs) version w =
     (case version_is v version of
        Inl e \<Rightarrow> (Inl e, w)
      | Inr True \<Rightarrow>
          (case now w of (t, w1) \<Rightarrow>
             then_do (publish_records vs version w1) (\<lambda>vs1 w2.
               (Inr (set_prop v ''publishedAt'' (JStr t) # vs1), w2)))
      | Inr False \<Rightarrow>
          then_do (publish_records vs version w) (\<lambda>vs1 w2. (Inr (v # vs1), w2)))"

definition next_versions :: "json list \<Rightarrow> string \<Rightarrow> world \<Rightarrow> (thrown + json list) \<times> world" where
  "next_versions vs version w =
     (case find_version vs version of
        Inl e \<Rightarrow> (Inl e, w)
      | Inr (Some i) \<Rightarrow> publish_records vs version w
      | Inr None \<Rightarrow>
          (case now w of (t1, w1) \<Rightarrow>
           case now w1 of (t2, w2) \<Rightarrow>
             (Inr (vs @ [JObj [(''version'', JStr version), (''uploadedAt'', JStr t1),
                               (''publishedAt'', JStr t2)]]), w2)))"

definition setCurrentVersion :: "runtime \<Rightarrow> config \<Rightarrow> string \<Rightarrow> string \<Rightarrow> world \<Rightarrow> (thrown + unit) \<times> world" where
  "setCurrentVersion rt cfg version action w =
     then_do (readState rt cfg w) (\<lambda>st w1.
     then_do (next_versions (versions st) version w1) (\<lambda>nextVersions w2.
       case now w2 of (t, w3) \<Rightarrow>
         let nextState =
               JObj [(''currentVersion'', JStr version),
                     (''versions'', JArr nextVersions),
                     (''history'', JArr (history st @
                        [JObj [(''action'', JStr action), (''version'', JStr version),
                               (''at'', JStr t)]]))]
         in atomicWriteState rt cfg nextState w3))"

section \<open>Publish lock (lib/lock.js) and coordinator (server.js)\<close>

definition LOCK_TIMEOUT :: thrown where
  "LOCK_TIMEOUT = Err ''LOCK_TIMEOUT'' ''lock_timeout'' 0"

definition LOCK_BUSY :: thrown where
  "LOCK_BUSY = Err ''LOCK_BUSY'' ''lock_busy'' 0"

definition VERSION_NOT_FOUND :: thrown where
  "VERSION_NOT_FOUND = Err ''VERSION_NOT_FOUND'' ''version_not_found'' 0"

text \<open>
  The acquisition loop of \<open>withFileLock\<close>, entered with the attempt counter. The result is
  whether \<open>handle\<close> was set.
\<close>

function lock_loop :: "int \<Rightarrow> int \<Rightarrow> int \<Rightarrow> string \<Rightarrow> world \<Rightarrow> (thrown + bool) \<times> world" where
  "lock_loop attempt retries retryDelayMs lockPath w =
     (if attempt < retries then
        (case file_open_wx lockPath w of
           (Inr _, w1) \<Rightarrow> (Inr True, w1)
         | (Inl error, w1) \<Rightarrow>
             (case error of
                Null \<Rightarrow> (Inl TypeError, w1)
              | Err c m sc \<Rightarrow>
                  if c \<noteq> ''EEXIST'' then (Inl error, w1)
                  else lock_loop (attempt + 1) retries retryDelayMs lockPath (sleep retryDelayMs w1)))
      else (Inr False, w))"
  by pat_completeness auto
termination
  by (relation "measure (\<lambda>(attempt, retries, retryDelayMs, lockPath, w). nat (retries - attempt))") auto

declare lock_loop.simps [simp del]

definition withFileLock ::
  "string \<Rightarrow> (world \<Rightarrow> (thrown + 'a) \<times> world) \<Rightarrow> int \<Rightarrow> int \<Rightarrow> world \<Rightarrow> (thrown + 'a) \<times> world" where
  "withFileLock lockPath fn retries retryDelayMs w =
     (case lock_loop 0 retries retryDelayMs lockPath w of
        (Inl e, w1) \<Rightarrow> (Inl e, w1)
      | (Inr False, w1) \<Rightarrow> (Inl LOCK_TIMEOUT, w1)
      | (Inr True, w1) \<Rightarrow> (case fn w1 of (r, w2) \<Rightarrow> (r, file_rm lockPath w2)))"

definition ADMIN_PLATFORM :: string where
  "ADMIN_PLATFORM = ''wxmini''"

record apply_result =
  alreadyCurrent :: bool

text \<open>The critical section of \<open>applyVersion\<close>.\<close>

definition apply_locked :: "runtime \<Rightarrow> config \<Rightarrow> string \<Rightarrow> string \<Rightarrow> world \<Rightarrow> (thrown + apply_result) \<times> world" where
  "apply_locked rt cfg version action w =
     then_do (listAvailableVersions cfg ADMIN_PLATFORM w) (\<lambda>available w1.
       if version \<notin> set available then (Inl VERSION_NOT_FOUND, w1)
       else
         then_do (readState rt cfg w1) (\<lambda>st w2.
           if currentVersion st = version then (Inr \<lparr>alreadyCurrent = True\<rparr>, w2)
           else
             then_do (setCurrentVersion rt cfg version action w2) (\<lambda>_ w3.
               (Inr \<lparr>alreadyCurrent = False\<rparr>, w3))))"

text \<open>\<open>withFileLock\<close> is called without options: 60 attempts, 100 ms apart.\<close>

definition applyVersion :: "runtime \<Rightarrow> config \<Rightarrow> string \<Rightarrow> string \<Rightarrow> world \<Rightarrow> (thrown + apply_result) \<times> world" where
  "applyVersion rt cfg version action w =
     (let lockPath = statePath cfg @ ''.publish.lock'' in
      case withFileLock lockPath (apply_locked rt cfg version action) 60 100 w of
        (Inr r, w1) \<Rightarrow> (Inr r, w1)
      | (Inl error, w1) \<Rightarrow>
          (case error of
             Null \<Rightarrow> (Inl TypeError, w1)
           | Err c m sc \<Rightarrow> if c = ''LOCK_TIMEOUT'' then (Inl LOCK_BUSY, w1) else (Inl error, w1)))"

text \<open>The text \<open>atomicWriteState\<close> puts into the state file.\<close>

definition written :: "runtime \<Rightarrow> json \<Rightarrow> string" where
  "written rt st = JSON_stringify rt (state_json (normalizeState st)) @ [CHR 0x0A]"


text \<open>
  Sequences of registry operations, and the invariant of the specification: the current
  version is unset or is the \<open>version\<close> of some record.
\<close>

datatype registry_op = RecordUpload string | SetCurrentVersion string string

fun run_ops :: "runtime \<Rightarrow> config \<Rightarrow> registry_op list \<Rightarrow> world \<Rightarrow> (thrown + unit) \<times> world" where
  "run_ops rt cfg [] w = (Inr (), w)"
| "run_ops rt cfg (RecordUpload version # ops) w =
     then_do (recordUpload rt cfg version w) (\<lambda>_. run_ops rt cfg ops)"
| "run_ops rt cfg (SetCurrentVersion version action # ops) w =
     then_do (setCurrentVersion rt cfg version action w) (\<lambda>_. run_ops rt cfg ops)"

definition has_record :: "string \<Rightarrow> json list \<Rightarrow> bool" where
  "has_record version vs = list_ex (\<lambda>r. opt_prop r ''version'' = Some (JStr version)) vs"

definition current_known :: "state \<Rightarrow> bool" where
  "current_known st = (currentVersion st = [] \<or> has_record (currentVersion st) (versions st))"

text \<open>No record is \<open>null\<close>: then no property access of the registry functions throws.\<close>

definition no_nulls :: "json list \<Rightarrow> bool" where
  "no_nulls vs = (\<forall>r\<in>set vs. r \<noteq> JNull)"

definition registry_inv :: "state \<Rightarrow> bool" where
  "registry_inv st = (no_nulls (versions st) \<and> current_known st)"

section \<open>Storage sync (lib/storage.js)\<close>






















section \<open>A reference runtime\<close>

text \<open>
  A small \<open>JSON.stringify\<close>/\<open>JSON.parse\<close> pair that satisfies the contract \<open>lawful\<close>, so
  that the registry can be run on concrete files: compact JSON with integer numbers, and
  the escapes \<^verbatim>\<open>\"\<close> and \<^verbatim>\<open>\\\<close> in strings.
\<close>

definition is_digit :: "char \<Rightarrow> bool" where
  "is_digit c = (CHR ''0'' \<le> c \<and> c \<le> CHR ''9'')"

definition digit_char :: "nat \<Rightarrow> char" where
  "digit_char d = char_of (48 + d)"

function show_nat :: "nat \<Rightarrow> string" where
  "show_nat n = (if n < 10 then [digit_char n] else show_nat (n div 10) @ [digit_char (n mod 10)])"
  by pat_completeness auto
termination
  by (relation "measure id") auto

declare show_nat.simps [simp del]

definition read_nat :: "string \<Rightarrow> nat" where
  "read_nat ds = foldl (\<lambda>a c. 10 * a + (of_char c - 48)) 0 ds"

definition escape :: "string \<Rightarrow> string" where
  "escape s = concat (map (\<lambda>c. if c = CHR 0x22 \<or> c = CHR 0x5C then [CHR 0x5C, c] else [c]) s)"

fun show_json :: "json \<Rightarrow> string"
  and show_elems :: "json list \<Rightarrow> string"
  and show_members :: "(string \<times> json) list \<Rightarrow> string" where
  "show_json JNull = ''null''"
| "show_json (JBool b) = (if b then ''true'' else ''false'')"
| "show_json (JNum i) = (if i < 0 then CHR ''-'' # show_nat (nat (- i)) else show_nat (nat i))"
| "show_json (JStr s) = CHR 0x22 # escape s @ [CHR 0x22]"
| "show_json (JArr xs) = CHR ''['' # show_elems xs"
| "show_json (JObj kvs) = CHR ''{'' # show_members kvs"
| "show_elems [] = '']''"
| "show_elems [x] = show_json x @ '']''"
| "show_elems (x # y # ys) = show_json x @ '','' @ show_elems (y # ys)"
| "show_members [] = ''}''"
| "show_members [(k, x)] = CHR 0x22 # escape k @ [CHR 0x22, CHR '':''] @ show_json x @ ''}''"
| "show_members ((k, x) # m # ms) =
     CHR 0x22 # escape k @ [CHR 0x22, CHR '':''] @ show_json x @ '','' @ show_members (m # ms)"

text \<open>The characters of a string literal after its opening quote.\<close>

fun read_string :: "string \<Rightarrow> (string \<times> string) option" where
  "read_string [] = None"
| "read_string (c # cs) =
     (if c = CHR 0x22 then Some ([], cs)
      else if c = CHR 0x5C then
        (case cs of
           [] \<Rightarrow> None
         | d # ds \<Rightarrow> (case read_string ds of None \<Rightarrow> None | Some (s, r) \<Rightarrow> Some (d # s, r)))
      else (case read_string cs of None \<Rightarrow> None | Some (s, r) \<Rightarrow> Some (c # s, r)))"

definition read_number :: "string \<Rightarrow> (nat \<times> string) option" where
  "read_number cs =
     (let ds = takeWhile is_digit cs
      in if ds = [] then None else Some (read_nat ds, dropWhile is_digit cs))"

text \<open>Recursive descent; the first argument bounds the depth of the calls.\<close>

fun read_value :: "nat \<Rightarrow> string \<Rightarrow> (json \<times> string) option"
  and read_elems :: "nat \<Rightarrow> string \<Rightarrow> (json list \<times> string) option"
  and read_members :: "nat \<Rightarrow> string \<Rightarrow> ((string \<times> json) list \<times> string) option" where
  "read_value 0 s = None"
| "read_value (Suc n) [] = None"
| "read_value (Suc n) (c # cs) =
     (if c = CHR ''n'' then (if prefix ''ull'' cs then Some (JNull, drop 3 cs) else None)
      else if c = CHR ''t'' then (if prefix ''rue'' cs then Some (JBool True, drop 3 cs) else None)
      else if c = CHR ''f'' then (if prefix ''alse'' cs then Some (JBool False, drop 4 cs) else None)
      else if c = CHR 0x22 then
        (case read_string cs of None \<Rightarrow> None | Some (s, r) \<Rightarrow> Some (JStr s, r))
      else if c = CHR ''['' then
        (case read_elems n cs of None \<Rightarrow> None | Some (xs, r) \<Rightarrow> Some (JArr xs, r))
      else if c = CHR ''{'' then
        (case read_members n cs of None \<Rightarrow> None | Some (kvs, r) \<Rightarrow> Some (JObj kvs, r))
      else if c = CHR ''-'' then
        (case read_number cs of None \<Rightarrow> None | Some (m, r) \<Rightarrow> Some (JNum (- int m), r))
      else (case read_number (c # cs) of None \<Rightarrow> None | Some (m, r) \<Rightarrow> Some (JNum (int m), r)))"
| "read_elems 0 s = None"
| "read_elems (Suc n) s =
     (case s of
        [] \<Rightarrow> None
      | c # cs \<Rightarrow>
          if c = CHR '']'' then Some ([], cs)
          else
            (case read_value n s of
               None \<Rightarrow> None
             | Some (x, r) \<Rightarrow>
                 (case r of
                    [] \<Rightarrow> None
                  | d # ds \<Rightarrow>
                      if d = CHR '']'' then Some ([x], ds)
                      else if d = CHR '','' then
                        (case read_elems n ds of
                           None \<Rightarrow> None
                         | Some (xs, r') \<Rightarrow> if xs = [] then None else Some (x # xs, r'))
                      else None)))"
| "read_members 0 s = None"
| "read_members (Suc n) s =
     (case s of
        [] \<Rightarrow> None
      | c # cs \<Rightarrow>
          if c = CHR ''}'' then Some ([], cs)
          else if c = CHR 0x22 then
            (case read_string cs of
               None \<Rightarrow> None
             | Some (k, r0) \<Rightarrow>
                 (case r0 of
                    [] \<Rightarrow> None
                  | e # es \<Rightarrow>
                      if e \<noteq> CHR '':'' then None
                      else
                        (case read_value n es of
                           None \<Rightarrow> None
                         | Some (x, r) \<Rightarrow>
                             (case r of
                                [] \<Rightarrow> None
                              | d # ds \<Rightarrow>
                                  if d = CHR ''}'' then Some ([(k, x)], ds)
                                  else if d = CHR '','' then
                                    (case read_members n ds of
                                       None \<Rightarrow> None
                                     | Some (kvs, r') \<Rightarrow>
                                         if kvs = [] then None else Some ((k, x) # kvs, r'))
                                  else None))))
          else None)"

definition is_space :: "char \<Rightarrow> bool" where
  "is_space c = (c = CHR '' '' \<or> c = CHR 0x0A \<or> c = CHR 0x0D \<or> c = CHR 0x09)"

definition read_json :: "string \<Rightarrow> json option" where
  "read_json s =
     (case read_value (length s) s of
        None \<Rightarrow> None
      | Some (v, r) \<Rightarrow> if list_all is_space r then Some v else None)"

definition node_runtime :: runtime where
  "node_runtime = \<lparr>JSON_stringify = show_json, JSON_parse = read_json\<rparr>"

text \<open>What may follow a number: anything but another digit.\<close>

definition ok_rest :: "string \<Rightarrow> bool" where
  "ok_rest r = (r = [] \<or> \<not> is_digit (hd r))"

section \<open>Example configurations and worlds\<close>

definition legacy_root :: string where
  "legacy_root = ''hotupdate/com.smartdog.bbqgame/WebGLWxMiniGame/1.0.0/WxMiniGame/DefaultPackage''"

definition cfg_local :: config where
  "cfg_local =
     \<lparr>statePath = ''/opt/pulzz-hotupdate/app/config/state.json'',
      STORAGE_DRIVER = [],
      PULZZ_COS_MOCK_ROOT = [],
      PULZZ_CDN_ROOT = ''/srv/cdn'',
      TENCENT_SECRET_ID = [],
      TENCENT_SECRET_KEY = [],
      TENCENT_COS_BUCKET = [],
      TENCENT_COS_REGION = [],
      COS_RETRY_COUNT = 3,
      legacyHotupdatePrefixRoot = legacy_root\<rparr>"


definition lock_path :: string where
  "lock_path = statePath cfg_local @ ''.publish.lock''"

text \<open>The CDN holds version 100 under the legacy publish path.\<close>

definition cdn_tree :: filesystem where
  "cdn_tree =
     [(path_join [''/srv/cdn'', legacy_root], Dir),
      (path_join [''/srv/cdn'', legacy_root, ''100''], Dir),
      (path_join [''/srv/cdn'', legacy_root, ''100'', ''config.json''], File ''{}'')]"

definition world_empty :: world where
  "world_empty =
     \<lparr>files = Map.empty,
      tree = cdn_tree,
      clock = (\<lambda>n. ''T'' @ show_nat n),
      ticks = 0,
      slept = [],
      others = (\<lambda>n fs. fs),
      bucket = [],
      faults = [],
      requests = []\<rparr>"

text \<open>A registry in which version 100 was uploaded and published.\<close>

definition doc_100 :: state where
  "doc_100 =
     \<lparr>currentVersion = ''100'',
      versions = [JObj [(''version'', JStr ''100''), (''uploadedAt'', JStr ''A''),
                        (''publishedAt'', JStr ''B'')]],
      history = [JObj [(''action'', JStr ''upload''), (''version'', JStr ''100''), (''at'', JStr ''A'')],
                 JObj [(''action'', JStr ''publish''), (''version'', JStr ''100''), (''at'', JStr ''B'')]]\<rparr>"

definition world_published :: world where
  "world_published =
     world_empty\<lparr>files := [statePath cfg_local \<mapsto> show_json (state_json doc_100) @ [CHR 0x0A]]\<rparr>"

text \<open>The same, while another process holds the publish lock and never releases it.\<close>

definition world_locked :: world where
  "world_locked = world_published\<lparr>files := (files world_published)(lock_path \<mapsto> [])\<rparr>"

text \<open>A registry whose state file was cut off in the middle.\<close>

definition world_corrupt :: world where
  "world_corrupt = world_empty\<lparr>files := [statePath cfg_local \<mapsto> ''{\"currentVersion\":\"10'']\<rparr>"

text \<open>A network that times out once, answers 503 once and then works; and one that refuses
  the credentials.\<close>

definition err_timeout :: thrown where
  "err_timeout = Err ''ETIMEDOUT'' ''connect ETIMEDOUT'' 0"

definition err_unavailable :: thrown where
  "err_unavailable = Err [] ''Service Unavailable'' 503"

definition err_denied :: thrown where
  "err_denied = Err ''AccessDenied'' ''Access Denied.'' 403"

definition world_flaky :: world where
  "world_flaky = world_empty\<lparr>faults := [Some err_timeout, Some err_unavailable]\<rparr>"

definition world_denied :: world where
  "world_denied = world_empty\<lparr>faults := [Some err_denied]\<rparr>"



section \<open>Basic facts\<close>

lemma then_do_Inl [simp]: "then_do (Inl e, s) k = (Inl e, s)"
  by (simp add: then_do_def)

lemma then_do_Inr [simp]: "then_do (Inr x, s) k = k x s"
  by (simp add: then_do_def)

section \<open>Properties of the archive inspector\<close>

lemma split_nonempty: "split c s \<noteq> []"
  by (induction s) (auto split: list.splits)

lemma path_parts_nonempty: "s \<noteq> [] \<Longrightarrow> hd s \<noteq> CHR ''/'' \<Longrightarrow> path_parts s \<noteq> []"
  by (cases s) (auto simp: path_parts_def split: list.splits)

text \<open>Every usable entry has a first path segment: its name is not empty and does not
  start with a slash.\<close>

lemma normalize_no_leading_slash:
  "normalizeZipEntryName n \<noteq> [] \<Longrightarrow> hd (normalizeZipEntryName n) \<noteq> CHR ''/''"
  unfolding normalizeZipEntryName_def by (rule hd_dropWhile)

lemma usable_name:
  "e \<in> set (usable_entries archive) \<Longrightarrow>
     name e \<noteq> [] \<and> (\<exists>n. name e = normalizeZipEntryName n)"
  unfolding usable_entries_def Let_def by auto

lemma usable_parts:
  assumes "e \<in> set (usable_entries archive)"
  shows "path_parts (name e) \<noteq> []"
proof -
  from usable_name[OF assms] obtain n
    where n: "name e = normalizeZipEntryName n" and ne: "name e \<noteq> []"
    by blast
  from ne have "hd (name e) \<noteq> CHR ''/''"
    unfolding n by (rule normalize_no_leading_slash)
  with ne show ?thesis by (rule path_parts_nonempty)
qed

lemma has_root_file_iff: "has_root_file es \<longleftrightarrow> (\<exists>e\<in>set es. is_root_file e)"
  by (simp add: has_root_file_def list_ex_iff)

text \<open>Without a root file the loop only ever adds first segments.\<close>

lemma scan_no_root:
  "\<forall>e\<in>set es. \<not> is_root_file e \<and> path_parts (name e) \<noteq> [] \<Longrightarrow>
   scan_entries es (tf, h) =
     (fold (\<lambda>e acc. set_add acc (first_elem (path_parts (name e)))) es tf, h)"
  by (induction es arbitrary: tf) (auto simp: is_root_file_def Let_def Suc_le_eq)

lemma fold_set_add_set:
  "\<forall>e\<in>set es. path_parts (name e) \<noteq> [] \<Longrightarrow>
   set (fold (\<lambda>e acc. set_add acc (first_elem (path_parts (name e)))) es tf)
     = set tf \<union> Some ` top_segments es"
proof (induction es arbitrary: tf)
  case Nil
  then show ?case by (simp add: top_segments_def)
next
  case (Cons e es)
  then show ?case
    by (auto simp: top_segments_def set_add_def first_elem_def split: list.splits)
qed

lemma fold_set_add_distinct:
  "distinct tf \<Longrightarrow> distinct (fold (\<lambda>e acc. set_add acc (f e)) es tf)"
  by (induction es arbitrary: tf) (auto simp: set_add_def)

lemma scan_usable:
  assumes "\<not> has_root_file (usable_entries archive)"
  shows "\<exists>tf. scan_entries (usable_entries archive) ([], False) = (tf, False) \<and> distinct tf
      \<and> set tf = Some ` top_segments (usable_entries archive)"
proof -
  let ?es = "usable_entries archive"
  let ?tf = "fold (\<lambda>e acc. set_add acc (first_elem (path_parts (name e)))) ?es []"
  have a: "\<forall>e\<in>set ?es. \<not> is_root_file e \<and> path_parts (name e) \<noteq> []"
    using assms usable_parts by (auto simp: has_root_file_iff)
  have "scan_entries ?es ([], False) = (?tf, False)"
    using a by (rule scan_no_root)
  moreover have "distinct ?tf" by (rule fold_set_add_distinct) simp
  moreover have "set ?tf = Some ` top_segments ?es"
    using a by (simp add: fold_set_add_set)
  ultimately show ?thesis by blast
qed

lemma scan_usable_length:
  assumes "\<not> has_root_file (usable_entries archive)"
  shows "\<exists>tf. scan_entries (usable_entries archive) ([], False) = (tf, False)
      \<and> length tf = card (top_segments (usable_entries archive))
      \<and> set tf = Some ` top_segments (usable_entries archive)"
proof -
  obtain tf where s: "scan_entries (usable_entries archive) ([], False) = (tf, False)"
     and d: "distinct tf" and t: "set tf = Some ` top_segments (usable_entries archive)"
    using scan_usable[OF assms] by blast
  have "length tf = card (top_segments (usable_entries archive))"
    using d t distinct_card[of tf] card_image[of Some "top_segments (usable_entries archive)"]
    by simp
  with s t show ?thesis by blast
qed

text \<open>
  C1, as the specification states it, fails: an archive with the two top-level folders
  \<open>assets\<close> and \<open>scripts\<close> and no root file is rejected.
\<close>

theorem multi_folder_accept_counterexample:
  "2 \<le> card (top_segments (usable_entries zip_two_folders))
   \<and> \<not> has_root_file (usable_entries zip_two_folders)
   \<and> inspectArchiveLayout zip_two_folders ''100'' = \<lparr>ok = False, flatten = False\<rparr>
   \<and> inspectArchiveLayout zip_two_folders ''100'' \<noteq> \<lparr>ok = True, flatten = False\<rparr>"
  by code_simp

text \<open>
  C1 (amended): for every archive whose usable entries (forward-slash normalized,
  \<open>__MACOSX\<close> artifacts excluded) have two or more distinct top-level path segments and no
  root file, \<open>inspectArchiveLayout\<close> returns \<open>{ok: false, flatten: false}\<close> for every
  target version: the guard \<open>topFolders.size > 1 && !hasRootFile\<close> rejects the archive, and
  \<open>extractZipToVersion\<close> throws \<open>ZIP_STRUCTURE_MISMATCH\<close> before it touches the file system.
\<close>

theorem multi_folder_rejected:
  assumes "2 \<le> card (top_segments (usable_entries archive))"
      and "\<not> has_root_file (usable_entries archive)"
  shows "inspectArchiveLayout archive version = \<lparr>ok = False, flatten = False\<rparr>
         \<and> extractZipToVersion archive version uploadRoot tempDir fs
             = (Inl ZIP_STRUCTURE_MISMATCH, fs)
         \<and> code ZIP_STRUCTURE_MISMATCH = ''ZIP_STRUCTURE_MISMATCH''"
proof -
  obtain tf where s: "scan_entries (usable_entries archive) ([], False) = (tf, False)"
     and l: "length tf = card (top_segments (usable_entries archive))"
    using scan_usable_length[OF assms(2)] by blast
  from l assms(1) have "length tf > 1" by simp
  then have "inspectArchiveLayout archive version = \<lparr>ok = False, flatten = False\<rparr>"
    using s by (simp add: inspectArchiveLayout_def Let_def)
  then show ?thesis
    by (simp add: extractZipToVersion_def Let_def ZIP_STRUCTURE_MISMATCH_def)
qed

theorem multi_folder_rejected_witness:
  "2 \<le> card (top_segments (usable_entries zip_two_folders))
   \<and> \<not> has_root_file (usable_entries zip_two_folders)
   \<and> inspectArchiveLayout zip_two_folders ''7'' = \<lparr>ok = False, flatten = False\<rparr>
   \<and> extractZipToVersion zip_two_folders ''7'' [''cdn'', ''gameres'', ''wxmini'']
        [''tmp'', ''pulzz-upload-1''] []
       = (Inl ZIP_STRUCTURE_MISMATCH, [])"
proof -
  have h1: "2 \<le> card (top_segments (usable_entries zip_two_folders))"
    by code_simp
  have h2: "\<not> has_root_file (usable_entries zip_two_folders)"
    by code_simp
  show ?thesis
    using h1 h2 multi_folder_rejected [OF h1 h2, of "''7''" "[''cdn'', ''gameres'', ''wxmini'']"
        "[''tmp'', ''pulzz-upload-1'']" "[]"]
    by simp
qed

text \<open>
  C7: for every archive whose usable entries all live under exactly one top-level segment
  and that has no root file, inspection returns \<open>{ok: true, flatten: true}\<close> when that
  folder's name equals the target version and \<open>{ok: false, flatten: false}\<close> otherwise; in
  the latter case \<open>extractZipToVersion\<close> throws \<open>ZIP_STRUCTURE_MISMATCH\<close> before it touches
  the file system.
\<close>

theorem single_folder_layout:
  assumes "top_segments (usable_entries archive) = {folder}"
      and "\<not> has_root_file (usable_entries archive)"
  shows "inspectArchiveLayout archive version =
           (if folder = version then \<lparr>ok = True, flatten = True\<rparr>
            else \<lparr>ok = False, flatten = False\<rparr>)
         \<and> (folder \<noteq> version \<longrightarrow>
              extractZipToVersion archive version uploadRoot tempDir fs
                = (Inl ZIP_STRUCTURE_MISMATCH, fs)
              \<and> code ZIP_STRUCTURE_MISMATCH = ''ZIP_STRUCTURE_MISMATCH'')"
proof -
  obtain tf where s: "scan_entries (usable_entries archive) ([], False) = (tf, False)"
     and l: "length tf = card (top_segments (usable_entries archive))"
     and t: "set tf = Some ` top_segments (usable_entries archive)"
    using scan_usable_length[OF assms(2)] by blast
  from l assms(1) have "length tf = 1" by simp
  then obtain x where tf: "tf = [x]" by (cases tf) auto
  with t assms(1) have x: "x = Some folder" by simp
  have ne: "usable_entries archive \<noteq> []"
    using assms(1) by (auto simp: top_segments_def)
  have insp: "inspectArchiveLayout archive version =
           (if folder = version then \<lparr>ok = True, flatten = True\<rparr>
            else \<lparr>ok = False, flatten = False\<rparr>)"
    using s tf x ne by (simp add: inspectArchiveLayout_def Let_def first_elem_def)
  then show ?thesis
    by (simp add: extractZipToVersion_def Let_def ZIP_STRUCTURE_MISMATCH_def)
qed

theorem single_folder_layout_witness:
  "top_segments (usable_entries zip_folder_99) = {''99''}
   \<and> \<not> has_root_file (usable_entries zip_folder_99)
   \<and> inspectArchiveLayout zip_folder_99 ''99'' = \<lparr>ok = True, flatten = True\<rparr>
   \<and> inspectArchiveLayout zip_folder_99 ''100'' = \<lparr>ok = False, flatten = False\<rparr>
   \<and> extractZipToVersion zip_folder_99 ''100'' [''cdn'', ''gameres'', ''wxmini'']
        [''tmp'', ''pulzz-upload-1''] []
       = (Inl ZIP_STRUCTURE_MISMATCH, [])"
proof -
  have h1: "top_segments (usable_entries zip_folder_99) = {''99''}"
    by code_simp
  have h2: "\<not> has_root_file (usable_entries zip_folder_99)"
    by code_simp
  show ?thesis
    using h1 h2 single_folder_layout [OF h1 h2, of "''99''"]
      single_folder_layout [OF h1 h2, of "''100''" "[''cdn'', ''gameres'', ''wxmini'']"
        "[''tmp'', ''pulzz-upload-1'']" "[]"]
    by simp
qed

section \<open>Properties of the retry policy\<close>

lemma loop_unfold:
  "withRetry_loop i retries baseDelay task lastError w =
     (if i \<le> retries then
        (case task w of
           (Inr v, w1) \<Rightarrow> (Inr v, w1)
         | (Inl error, w1) \<Rightarrow>
             if i \<ge> retries \<or> \<not> isRetryableCosError error then (Inl error, w1)
             else withRetry_loop (i + 1) retries baseDelay task error
                    (sleep (baseDelay * (i + 1)) w1))
      else (Inl lastError, w))"
  by (rule withRetry_loop.simps)


lemma loop_success:
  assumes "int N \<le> retries"
      and "\<forall>k<N. \<exists>e. fst (task (attempts task baseDelay k w)) = Inl e \<and> isRetryableCosError e"
      and "fst (task (attempts task baseDelay N w)) = Inr v"
      and "j \<le> N"
  shows "withRetry_loop (int j) retries baseDelay task lastError (attempts task baseDelay j w)
           = (Inr v, snd (task (attempts task baseDelay N w)))"
  using assms(4)
proof (induction "N - j" arbitrary: j lastError)
  case 0
  then have j: "j = N" by simp
  obtain w1 where t: "task (attempts task baseDelay N w) = (Inr v, w1)"
    using assms(3) by (cases "task (attempts task baseDelay N w)") auto
  show ?case using assms(1) unfolding j
    by (subst loop_unfold) (simp add: t)
next
  case (Suc d)
  then have jN: "j < N" by simp
  then obtain e where e: "fst (task (attempts task baseDelay j w)) = Inl e" "isRetryableCosError e"
    using assms(2) by blast
  obtain w1 where t: "task (attempts task baseDelay j w) = (Inl e, w1)"
    using e(1) by (cases "task (attempts task baseDelay j w)") auto
  have d: "d = N - Suc j" using Suc by simp
  have "withRetry_loop (int j) retries baseDelay task lastError (attempts task baseDelay j w)
        = withRetry_loop (int (Suc j)) retries baseDelay task e (attempts task baseDelay (Suc j) w)"
    using jN assms(1) e(2)
    by (subst loop_unfold) (simp add: t add.commute)
  also have "\<dots> = (Inr v, snd (task (attempts task baseDelay N w)))"
    using Suc(1)[OF d] jN by simp
  finally show ?case .
qed

lemma attempts_slept:
  assumes "\<forall>w. slept (snd (task w)) = slept w"
  shows "slept (attempts task baseDelay n w) = slept w @ map (\<lambda>k. baseDelay * int k) [1..<Suc n]"
  using assms by (induction n) (auto simp: sleep_def)









text \<open>
  C6: for every task and every \<open>N\<close> not exceeding the retry count: if the task fails with a
  retryable error on each of its first \<open>N\<close> invocations and succeeds on invocation
  \<open>N + 1\<close>, \<open>withRetry\<close> returns that success from the world that \<open>N + 1\<close> invocations
  and the sleeps of \<open>baseDelay * 1, ..., baseDelay * N\<close> between them lead to; and if the
  first invocation fails with an error that is not retryable, \<open>withRetry\<close> rethrows it
  from the world that this single invocation leaves, without sleeping.
\<close>

theorem withRetry_policy:
  "(int N \<le> retries \<and>
    (\<forall>k<N. \<exists>e. fst (task (attempts task baseDelay k w)) = Inl e \<and> isRetryableCosError e) \<and>
    fst (task (attempts task baseDelay N w)) = Inr v
    \<longrightarrow> withRetry task retries baseDelay w = (Inr v, snd (task (attempts task baseDelay N w)))
        \<and> ((\<forall>w. slept (snd (task w)) = slept w) \<longrightarrow>
             slept (snd (withRetry task retries baseDelay w))
               = slept w @ map (\<lambda>k. baseDelay * int k) [1..<Suc N]))
   \<and> (0 \<le> retries \<and> fst (task w) = Inl e \<and> \<not> isRetryableCosError e
      \<longrightarrow> withRetry task retries baseDelay w = (Inl e, snd (task w)))"
proof (intro conjI impI)
  assume a: "int N \<le> retries \<and>
    (\<forall>k<N. \<exists>e. fst (task (attempts task baseDelay k w)) = Inl e \<and> isRetryableCosError e) \<and>
    fst (task (attempts task baseDelay N w)) = Inr v"
  show r: "withRetry task retries baseDelay w = (Inr v, snd (task (attempts task baseDelay N w)))"
    using loop_success[of N retries task baseDelay w v 0 Null] a by (simp add: withRetry_def)
  assume "\<forall>w. slept (snd (task w)) = slept w"
  then show "slept (snd (withRetry task retries baseDelay w))
               = slept w @ map (\<lambda>k. baseDelay * int k) [1..<Suc N]"
    using r attempts_slept[of task baseDelay N w] by simp
next
  assume b: "0 \<le> retries \<and> fst (task w) = Inl e \<and> \<not> isRetryableCosError e"
  then obtain w1 where t: "task w = (Inl e, w1)"
    by (cases "task w") auto
  show "withRetry task retries baseDelay w = (Inl e, snd (task w))"
    unfolding withRetry_def using b by (subst loop_unfold) (simp add: t)
qed


theorem withRetry_policy_witness:
  "fst (withRetry (cos_getBucket ''p/'' [] 1000) 3 250 world_flaky)
     = Inr \<lparr>Contents = [], IsTruncated = False\<rparr>
   \<and> length (requests (snd (withRetry (cos_getBucket ''p/'' [] 1000) 3 250 world_flaky))) = 3
   \<and> slept (snd (withRetry (cos_getBucket ''p/'' [] 1000) 3 250 world_flaky)) = [250, 500]
   \<and> fst (withRetry (cos_getBucket ''p/'' [] 1000) 3 250 world_denied) = Inl err_denied
   \<and> length (requests (snd (withRetry (cos_getBucket ''p/'' [] 1000) 3 250 world_denied))) = 1
   \<and> slept (snd (withRetry (cos_getBucket ''p/'' [] 1000) 3 250 world_denied)) = []"
proof -
  let ?task = "cos_getBucket ''p/'' [] 1000 :: world \<Rightarrow> (thrown + page) \<times> world"
  have r: "isRetryableCosError err_timeout" "isRetryableCosError err_unavailable"
    "\<not> isRetryableCosError err_denied"
    by code_simp+
  have a0: "?task world_flaky
      = (Inl err_timeout, world_flaky\<lparr>requests := [GetBucket ''p/'' [] 1000],
           faults := [Some err_unavailable]\<rparr>)"
    by (simp add: cos_getBucket_def sdk_call_def world_flaky_def world_empty_def)
  have a1: "?task (attempts ?task 250 (Suc 0) world_flaky)
      = (Inl err_unavailable, world_flaky\<lparr>requests := [GetBucket ''p/'' [] 1000, GetBucket ''p/'' [] 1000],
           faults := [], slept := [250]\<rparr>)"
    by (simp add: a0 sleep_def) (simp add: cos_getBucket_def sdk_call_def world_flaky_def world_empty_def)
  have a2: "?task (attempts ?task 250 (Suc (Suc 0)) world_flaky)
      = (Inr \<lparr>Contents = [], IsTruncated = False\<rparr>,
         world_flaky\<lparr>requests := [GetBucket ''p/'' [] 1000, GetBucket ''p/'' [] 1000,
            GetBucket ''p/'' [] 1000], faults := [], slept := [250, 500]\<rparr>)"
    by (simp add: a1 sleep_def) (simp add: cos_getBucket_def sdk_call_def world_flaky_def world_empty_def list_objects_def)
  have fails: "\<forall>k<2. \<exists>e. fst (?task (attempts ?task 250 k world_flaky)) = Inl e \<and> isRetryableCosError e"
  proof (intro allI impI)
    fix k :: nat assume "k < 2"
    then consider "k = 0" | "k = Suc 0" by linarith
    then show "\<exists>e. fst (?task (attempts ?task 250 k world_flaky)) = Inl e \<and> isRetryableCosError e"
      using a0 a1 r by cases simp_all
  qed
  have b0: "?task world_denied
      = (Inl err_denied, world_denied\<lparr>requests := [GetBucket ''p/'' [] 1000], faults := []\<rparr>)"
    by (simp add: cos_getBucket_def sdk_call_def world_denied_def world_empty_def)
  have quiet: "\<forall>w. slept (snd (?task w)) = slept w"
    by (simp add: cos_getBucket_def sdk_call_def Let_def split: list.splits option.splits)
  have s: "slept world_denied = []" "slept world_flaky = []"
    by (simp_all add: world_denied_def world_flaky_def world_empty_def)
  show ?thesis
    using withRetry_policy [where N = 2 and retries = 3 and task = ?task and baseDelay = 250
        and w = world_flaky and v = "\<lparr>Contents = [], IsTruncated = False\<rparr>" and e = err_denied]
      withRetry_policy [where N = 0 and retries = 3 and task = ?task and baseDelay = 250
        and w = world_denied and v = "\<lparr>Contents = [], IsTruncated = False\<rparr>" and e = err_denied]
      fails a2 b0 r s quiet
    by (simp add: numeral_2_eq_2)
qed

section \<open>The reference runtime is lawful\<close>

lemma digit_char_is_digit: "d < 10 \<Longrightarrow> is_digit (digit_char d)"
  by (simp add: is_digit_def digit_char_def less_eq_char_def)

lemma digit_char_val: "d < 10 \<Longrightarrow> of_char (digit_char d) - 48 = d"
  by (simp add: digit_char_def)

lemma show_nat_digits: "list_all is_digit (show_nat n)"
proof (induction n rule: show_nat.induct)
  case (1 n)
  then show ?case
    by (subst show_nat.simps) (auto simp: digit_char_is_digit)
qed

lemma show_nat_nonempty: "show_nat n \<noteq> []"
  by (subst show_nat.simps) simp

lemma read_nat_snoc: "read_nat (ds @ [c]) = 10 * read_nat ds + (of_char c - 48)"
  by (simp add: read_nat_def)

lemma read_show_nat: "read_nat (show_nat n) = n"
proof (induction n rule: show_nat.induct)
  case (1 n)
  show ?case
  proof (cases "n < 10")
    case True
    then show ?thesis by (subst show_nat.simps) (simp add: read_nat_def digit_char_val)
  next
    case False
    then have "read_nat (show_nat (n div 10)) = n div 10" using 1 by simp
    then show ?thesis using False
      by (subst show_nat.simps) (simp add: read_nat_snoc digit_char_val)
  qed
qed

lemma read_number_show:
  assumes "ok_rest r"
  shows "read_number (show_nat n @ r) = Some (n, r)"
proof -
  have d: "\<forall>c\<in>set (show_nat n). is_digit c"
    using show_nat_digits[of n] by (simp add: list_all_iff)
  have t: "takeWhile is_digit (show_nat n @ r) = show_nat n"
    using d assms by (cases r) (auto simp: ok_rest_def)
  have dr: "dropWhile is_digit (show_nat n @ r) = r"
    using d assms by (cases r) (auto simp: ok_rest_def)
  show ?thesis by (simp add: read_number_def t dr show_nat_nonempty read_show_nat)
qed

lemma read_string_escape: "read_string (escape s @ CHR 0x22 # r) = Some (s, r)"
  by (induction s) (auto simp: escape_def)


lemma show_nat_hd: "\<exists>c cs. show_nat n = c # cs \<and> is_digit c"
  using show_nat_digits[of n] show_nat_nonempty[of n] by (cases "show_nat n") auto

lemma digit_not_special:
  "is_digit c \<Longrightarrow> c \<noteq> CHR ''n'' \<and> c \<noteq> CHR ''t'' \<and> c \<noteq> CHR ''f'' \<and> c \<noteq> CHR 0x22
     \<and> c \<noteq> CHR ''['' \<and> c \<noteq> CHR ''{'' \<and> c \<noteq> CHR ''-'' \<and> c \<noteq> CHR '']''"
  by (auto simp: is_digit_def less_eq_char_def)

lemma show_json_hd: "\<exists>c cs. show_json v = c # cs \<and> c \<noteq> CHR '']''"
proof (cases v)
  case (JNum i)
  then show ?thesis using show_nat_hd[of "nat i"] digit_not_special by auto
qed auto

lemma ok_rest_simps [simp]: "ok_rest (CHR '']'' # r)" "ok_rest (CHR '','' # r)" "ok_rest (CHR ''}'' # r)"
  by (simp_all add: ok_rest_def is_digit_def less_eq_char_def)

lemma read_value_num_pos:
  assumes "ok_rest r"
  shows "read_value (Suc n) (show_nat m @ r) = Some (JNum (int m), r)"
proof -
  obtain c cs where s: "show_nat m = c # cs" and d: "is_digit c" using show_nat_hd by blast
  have "read_number (c # cs @ r) = Some (m, r)"
    using read_number_show[OF assms, of m] s by simp
  then show ?thesis using digit_not_special[OF d] s by simp
qed

lemma read_value_num_neg:
  assumes "ok_rest r"
  shows "read_value (Suc n) (CHR ''-'' # show_nat m @ r) = Some (JNum (- int m), r)"
  using read_number_show[OF assms, of m] by simp

lemma roundtrip:
  "(\<forall>n r. length (show_json v) \<le> n \<longrightarrow> ok_rest r \<longrightarrow> read_value n (show_json v @ r) = Some (v, r))"
  "(\<forall>n r. length (show_elems xs) \<le> n \<longrightarrow> read_elems n (show_elems xs @ r) = Some (xs, r))"
  "(\<forall>n r. length (show_members kvs) \<le> n \<longrightarrow> read_members n (show_members kvs @ r) = Some (kvs, r))"
proof (induction v and xs and kvs rule: show_json_show_elems_show_members.induct)
  case 1
  show ?case
  proof (intro allI impI)
    fix n r assume "length (show_json JNull) \<le> n"
    then obtain k where "n = Suc k" by (cases n) auto
    then show "read_value n (show_json JNull @ r) = Some (JNull, r)" by simp
  qed
next
  case (2 b)
  show ?case
  proof (intro allI impI)
    fix n r assume "length (show_json (JBool b)) \<le> n"
    then obtain k where "n = Suc k" by (cases n) (auto split: if_splits)
    then show "read_value n (show_json (JBool b) @ r) = Some (JBool b, r)" by simp
  qed
next
  case (3 i)
  show ?case
  proof (intro allI impI)
    fix n r assume l: "length (show_json (JNum i)) \<le> n" and ok: "ok_rest r"
    have "show_json (JNum i) \<noteq> []" using show_nat_nonempty by simp
    with l obtain k where n: "n = Suc k" by (cases n) auto
    show "read_value n (show_json (JNum i) @ r) = Some (JNum i, r)"
    proof (cases "i < 0")
      case True
      then show ?thesis using read_value_num_neg[OF ok, of k "nat (- i)"] n by simp
    next
      case False
      then show ?thesis using read_value_num_pos[OF ok, of k "nat i"] n by simp
    qed
  qed
next
  case (4 s)
  show ?case
  proof (intro allI impI)
    fix n r assume "length (show_json (JStr s)) \<le> n"
    then obtain k where "n = Suc k" by (cases n) auto
    then show "read_value n (show_json (JStr s) @ r) = Some (JStr s, r)"
      by (simp add: read_string_escape)
  qed
next
  case (5 xs)
  show ?case
  proof (intro allI impI)
    fix n r assume l: "length (show_json (JArr xs)) \<le> n"
    then obtain k where n: "n = Suc k" and k: "length (show_elems xs) \<le> k" by (cases n) auto
    then show "read_value n (show_json (JArr xs) @ r) = Some (JArr xs, r)"
      using 5 by simp
  qed
next
  case (6 kvs)
  show ?case
  proof (intro allI impI)
    fix n r assume l: "length (show_json (JObj kvs)) \<le> n"
    then obtain k where n: "n = Suc k" and k: "length (show_members kvs) \<le> k" by (cases n) auto
    then show "read_value n (show_json (JObj kvs) @ r) = Some (JObj kvs, r)"
      using 6 by simp
  qed
next
  case 7
  show ?case
  proof (intro allI impI)
    fix n r assume "length (show_elems []) \<le> n"
    then obtain k where "n = Suc k" by (cases n) auto
    then show "read_elems n (show_elems [] @ r) = Some ([], r)" by simp
  qed
next
  case (8 x)
  show ?case
  proof (intro allI impI)
    fix n r assume "length (show_elems [x]) \<le> n"
    then obtain k where n: "n = Suc k" and k: "length (show_json x) \<le> k" by (cases n) auto
    obtain c cs where h: "show_json x = c # cs" "c \<noteq> CHR '']''" using show_json_hd by blast
    have "read_value k (show_json x @ CHR '']'' # r) = Some (x, CHR '']'' # r)"
      using 8 k by simp
    then show "read_elems n (show_elems [x] @ r) = Some ([x], r)"
      using n h by simp
  qed
next
  case (9 x y ys)
  show ?case
  proof (intro allI impI)
    fix n r assume "length (show_elems (x # y # ys)) \<le> n"
    then obtain k where n: "n = Suc k" and k: "length (show_json x) \<le> k"
        "length (show_elems (y # ys)) \<le> k" by (cases n) auto
    obtain c cs where h: "show_json x = c # cs" "c \<noteq> CHR '']''" using show_json_hd by blast
    have a: "read_value k (show_json x @ CHR '','' # show_elems (y # ys) @ r)
        = Some (x, CHR '','' # show_elems (y # ys) @ r)"
      using 9(1) k by simp
    have b: "read_elems k (show_elems (y # ys) @ r) = Some (y # ys, r)"
      using 9(2) k by simp
    show "read_elems n (show_elems (x # y # ys) @ r) = Some (x # y # ys, r)"
      using n h a b by simp
  qed
next
  case 10
  show ?case
  proof (intro allI impI)
    fix n r assume "length (show_members []) \<le> n"
    then obtain k where "n = Suc k" by (cases n) auto
    then show "read_members n (show_members [] @ r) = Some ([], r)" by simp
  qed
next
  case (11 k x)
  show ?case
  proof (intro allI impI)
    fix n r assume "length (show_members [(k, x)]) \<le> n"
    then obtain m where n: "n = Suc m" and m: "length (show_json x) \<le> m" by (cases n) auto
    have "read_value m (show_json x @ CHR ''}'' # r) = Some (x, CHR ''}'' # r)"
      using 11 m by simp
    then show "read_members n (show_members [(k, x)] @ r) = Some ([(k, x)], r)"
      using n by (simp add: read_string_escape)
  qed
next
  case (12 k x m ms)
  show ?case
  proof (intro allI impI)
    fix n r assume "length (show_members ((k, x) # m # ms)) \<le> n"
    then obtain j where n: "n = Suc j" and j: "length (show_json x) \<le> j"
        "length (show_members (m # ms)) \<le> j" by (cases n) auto
    have a: "read_value j (show_json x @ CHR '','' # show_members (m # ms) @ r)
        = Some (x, CHR '','' # show_members (m # ms) @ r)"
      using 12(1) j by simp
    have b: "read_members j (show_members (m # ms) @ r) = Some (m # ms, r)"
      using 12(2) j by simp
    show "read_members n (show_members ((k, x) # m # ms) @ r) = Some ((k, x) # m # ms, r)"
      using n a b by (simp add: read_string_escape)
  qed
qed

lemma node_runtime_lawful: "lawful node_runtime"
proof -
  have "read_json (show_json v @ [CHR 0x0A]) = Some v" for v
  proof -
    have "read_value (length (show_json v @ [CHR 0x0A])) (show_json v @ [CHR 0x0A])
        = Some (v, [CHR 0x0A])"
      using roundtrip(1)[of v] by (simp add: ok_rest_def is_digit_def less_eq_char_def)
    then show ?thesis by (simp add: read_json_def is_space_def)
  qed
  then show ?thesis by (simp add: lawful_def node_runtime_def)
qed

section \<open>Properties of the registry\<close>

lemma tmp_neq: "p @ ''.tmp'' \<noteq> p"
  by (metis append_self_conv list.distinct(1))

lemma normalize_state_json [simp]: "normalizeState (state_json st) = st"
  by (simp add: normalizeState_def state_json_def opt_prop_def)

lemma normalize_default [simp]:
  "normalizeState DEFAULT_STATE = \<lparr>currentVersion = [], versions = [], history = []\<rparr>"
  by (simp add: normalizeState_def DEFAULT_STATE_def opt_prop_def)

lemma atomicWriteState_eq:
  "atomicWriteState rt cfg st w =
     (Inr (), w\<lparr>files := (files w)(statePath cfg @ ''.tmp'' := None, statePath cfg \<mapsto> written rt st)\<rparr>)"
  by (simp add: atomicWriteState_def Let_def file_mkdir_def file_writeFile_def file_rename_def
      written_def)

lemma readState_present:
  "files w (statePath cfg) = Some text \<Longrightarrow>
   readState rt cfg w =
     (Inr (normalizeState (case JSON_parse rt text of Some j \<Rightarrow> j | None \<Rightarrow> DEFAULT_STATE)), w)"
  by (simp add: readState_def ensureStateFile_def file_mkdir_def file_access_def file_readFile_def)

lemma readState_absent:
  "files w (statePath cfg) = None \<Longrightarrow>
   readState rt cfg w =
     (Inr (normalizeState (case JSON_parse rt (written rt DEFAULT_STATE) of Some j \<Rightarrow> j
                           | None \<Rightarrow> DEFAULT_STATE)),
      w\<lparr>files := (files w)(statePath cfg @ ''.tmp'' := None,
                           statePath cfg \<mapsto> written rt DEFAULT_STATE)\<rparr>)"
  by (simp add: readState_def ensureStateFile_def file_mkdir_def file_access_def file_readFile_def
      atomicWriteState_eq)

lemma lawful_written:
  "lawful rt \<Longrightarrow> JSON_parse rt (written rt st) = Some (state_json (normalizeState st))"
  by (simp add: lawful_def written_def)


lemma readState_returns: "\<exists>st. fst (readState rt cfg w) = Inr st"
proof (cases "files w (statePath cfg)")
  case None
  then show ?thesis by (simp add: readState_absent)
next
  case (Some a)
  then show ?thesis by (simp add: readState_present)
qed

lemma readState_absent_default:
  "lawful rt \<Longrightarrow> files w (statePath cfg) = None \<Longrightarrow>
   fst (readState rt cfg w) = Inr \<lparr>currentVersion = [], versions = [], history = []\<rparr>"
  by (simp add: readState_absent lawful_written)

lemma readState_unparsable_default:
  "files w (statePath cfg) = Some content \<Longrightarrow> JSON_parse rt content = None \<Longrightarrow>
   fst (readState rt cfg w) = Inr \<lparr>currentVersion = [], versions = [], history = []\<rparr>"
  by (simp add: readState_present)

section \<open>Properties of version discovery\<close>

lemma lock_neq: "p @ ''.publish.lock'' \<noteq> p"
  by (metis append_self_conv list.distinct(1))

lemma sort_versions_set [simp]: "set (sort_versions xs) = set xs"
  by (simp add: sort_versions_def)

lemma listVersionsByFsRoot_digits:
  "listVersionsByFsRoot root w = (Inr vs, w') \<Longrightarrow> v \<in> set vs \<Longrightarrow> all_digits v"
  by (auto simp: listVersionsByFsRoot_def versions_under_def split: sum.splits)

lemma fold_preserves:
  "\<forall>k d. P d \<longrightarrow> P (f k d) \<Longrightarrow> P d \<Longrightarrow> P (fold f ks d)"
  by (induction ks arbitrary: d) simp_all

lemma add_discovered_digits:
  assumes "\<forall>v\<in>set d. all_digits v"
  shows "\<forall>v\<in>set (add_discovered pfx keys d). all_digits v"
  unfolding add_discovered_def
proof (rule fold_preserves[where P = "\<lambda>d. \<forall>v\<in>set d. all_digits v"])
  show "\<forall>k d. (\<forall>v\<in>set d. all_digits v) \<longrightarrow>
       (\<forall>v\<in>set (let rest = drop (length pfx) k;
                        version = case split CHR ''/'' rest of [] \<Rightarrow> [] | p # x \<Rightarrow> p
                    in if all_digits version then set_add d version else d).
           all_digits v)"
    by (simp add: Let_def set_add_def)
  show "\<forall>v\<in>set d. all_digits v" by (rule assms)
qed

lemma scan_loop_digits:
  "\<forall>v\<in>set d. all_digits v \<Longrightarrow> scan_loop cfg pfx marker d w = (Inr vs, w') \<Longrightarrow>
   \<forall>v\<in>set vs. all_digits v"
proof (induction cfg pfx marker d w rule: scan_loop.induct)
  case (1 cfg pfx marker discovered w)
  obtain r w1 where t: "withRetry_default cfg (cos_getBucket pfx marker 1000) w = (r, w1)"
    by (cases "withRetry_default cfg (cos_getBucket pfx marker 1000) w")
  show ?case
  proof (cases r)
    case (Inl e)
    then show ?thesis using "1.prems"(2) t by (subst (asm) scan_loop.simps) simp
  next
    case (Inr pg)
    let ?keys = "filter (\<lambda>k. k \<noteq> []) (Contents pg)"
    let ?d1 = "add_discovered pfx ?keys discovered"
    have d1: "\<forall>v\<in>set ?d1. all_digits v" using "1.prems"(1) by (rule add_discovered_digits)
    show ?thesis
    proof (cases "\<not> IsTruncated pg \<or> ?keys = []")
      case True
      then have "vs = ?d1" using "1.prems"(2) t Inr
        by (subst (asm) scan_loop.simps) (auto simp: Let_def)
      then show ?thesis using d1 by simp
    next
      case False
      then have "scan_loop cfg pfx (last ?keys) ?d1 w1 = (Inr vs, w')"
        using "1.prems"(2) t Inr by (subst (asm) scan_loop.simps) (auto simp: Let_def)
      then show ?thesis
        using "1.IH"[OF t[symmetric] Inr refl refl False d1] by simp
    qed
  qed
qed

lemma listVersionsFromCos_digits:
  assumes "listVersionsFromCos cfg platform w = (Inr vs, w')" and "v \<in> set vs"
  shows "all_digits v"
proof -
  obtain r w2 where sc: "scan_loop cfg (legacyHotupdatePrefixRoot cfg @ ''/'') [] [] w = (r, w2)"
    by (cases "scan_loop cfg (legacyHotupdatePrefixRoot cfg @ ''/'') [] [] w")
  have c: "createCosClient cfg w = (Inr (), w)"
    using assms(1) by (cases "createCosClient cfg w = (Inr (), w)")
      (simp_all add: listVersionsFromCos_def createCosClient_def split: if_splits)
  show ?thesis
  proof (cases r)
    case (Inl e)
    then show ?thesis using assms(1) c sc by (simp add: listVersionsFromCos_def)
  next
    case (Inr d)
    then have "vs = sort_versions d" using assms(1) c sc by (simp add: listVersionsFromCos_def)
    moreover have "\<forall>v\<in>set d. all_digits v"
      using scan_loop_digits[OF _ sc[unfolded Inr]] by simp
    ultimately show ?thesis using assms(2) by simp
  qed
qed

lemma listAvailableVersions_digits:
  assumes "listAvailableVersions cfg platform w = (Inr vs, w')" and "v \<in> set vs"
  shows "all_digits v"
proof (cases "storage_driver cfg = ''cos''")
  case True
  show ?thesis
  proof (cases "PULZZ_COS_MOCK_ROOT cfg \<noteq> []")
    case mock: True
    then show ?thesis using assms True listVersionsByFsRoot_digits
      by (simp add: listAvailableVersions_def; blast)
  next
    case False
    then show ?thesis using assms True listVersionsFromCos_digits
      by (simp add: listAvailableVersions_def; blast)
  qed
next
  case False
  then show ?thesis using assms listVersionsByFsRoot_digits
    by (simp add: listAvailableVersions_def Let_def split: if_splits; blast)
qed

section \<open>Properties of the publish lock and the coordinator\<close>

lemma lock_loop_free:
  "attempt < retries \<Longrightarrow> files w lockPath = None \<Longrightarrow>
   lock_loop attempt retries d lockPath w = (Inr True, w\<lparr>files := (files w)(lockPath \<mapsto> [])\<rparr>)"
  by (subst lock_loop.simps) (simp add: file_open_wx_def)

lemma lock_loop_busy:
  "n = nat (retries - attempt) \<Longrightarrow>
   \<forall>k<n. files ((sleep d ^^ k) w) lockPath \<noteq> None \<Longrightarrow>
   lock_loop attempt retries d lockPath w = (Inr False, (sleep d ^^ n) w)"
proof (induction n arbitrary: attempt w)
  case 0
  then show ?case by (subst lock_loop.simps) simp
next
  case (Suc n)
  then have lt: "attempt < retries" by simp
  have held: "files w lockPath \<noteq> None" using Suc.prems(2) by (metis funpow_0 zero_less_Suc)
  have n: "n = nat (retries - (attempt + 1))" using Suc.prems(1) by simp
  have later: "\<forall>k<n. files ((sleep d ^^ k) (sleep d w)) lockPath \<noteq> None"
  proof (intro allI impI)
    fix k assume "k < n"
    then have "Suc k < Suc n" by simp
    with Suc.prems(2) have "files ((sleep d ^^ Suc k) w) lockPath \<noteq> None" by blast
    then show "files ((sleep d ^^ k) (sleep d w)) lockPath \<noteq> None"
      by (simp add: funpow_swap1)
  qed
  have "lock_loop attempt retries d lockPath w
      = lock_loop (attempt + 1) retries d lockPath (sleep d w)"
    using lt held by (subst lock_loop.simps) (simp add: file_open_wx_def EEXIST_def)
  also have "\<dots> = (Inr False, (sleep d ^^ n) (sleep d w))"
    using Suc.IH[OF n later] .
  finally show ?case by (simp add: funpow_swap1)
qed


lemma all_digits_nonempty: "all_digits v \<Longrightarrow> v \<noteq> []"
  by (simp add: all_digits_def)

lemma file_rm_other: "p \<noteq> q \<Longrightarrow> files (file_rm p w) q = files w q"
  by (simp add: file_rm_def)

text \<open>Reading a registry whose current version is set does not touch the world.\<close>

lemma readState_current_set:
  assumes "lawful rt" and "readState rt cfg w = (Inr st, w1)" and "currentVersion st \<noteq> []"
  shows "w1 = w \<and> files w (statePath cfg) \<noteq> None"
proof (cases "files w (statePath cfg)")
  case None
  then have "fst (readState rt cfg w) = Inr \<lparr>currentVersion = [], versions = [], history = []\<rparr>"
    using assms(1) by (simp add: readState_absent_default)
  then show ?thesis using assms(2,3) by simp
next
  case (Some content)
  then show ?thesis using assms(2) by (simp add: readState_present)
qed

lemma readState_file_rm:
  assumes "files w (statePath cfg) = Some content" and "p \<noteq> statePath cfg"
  shows "readState rt cfg (file_rm p w) = (fst (readState rt cfg w), file_rm p w)"
  using assms by (simp add: readState_present file_rm_def)

section \<open>Facts about the example worlds\<close>

lemma sleep_static:
  "others w = (\<lambda>n fs. fs) \<Longrightarrow>
   files ((sleep d ^^ k) w) = files w \<and> others ((sleep d ^^ k) w) = others w"
  by (induction k) (simp_all add: sleep_def)

lemma node_runtime_parse_written:
  "JSON_parse node_runtime (show_json v @ [CHR 0x0A]) = Some v"
  using node_runtime_lawful by (simp add: lawful_def node_runtime_def)

lemma readState_published:
  "readState node_runtime cfg_local world_published = (Inr doc_100, world_published)"
  by (simp add: readState_present world_published_def node_runtime_parse_written)

lemma listAvailableVersions_local:
  "listAvailableVersions cfg_local p w
     = (Inr (versions_under (path_join [''/srv/cdn'', legacy_root]) (tree w)), w)"
  by (simp add: listAvailableVersions_def storage_driver_def toLowerCase_def cfg_local_def
      listVersionsByFsRoot_def)

lemma cdn_versions: "versions_under (path_join [''/srv/cdn'', legacy_root]) cdn_tree = [''100'']"
  by code_simp


text \<open>
  C3: for every version \<open>V\<close> that the storage listing holds and every action label: when
  the lock is acquired and the registry read inside the critical section has
  \<open>currentVersion = V\<close>, \<open>applyVersion\<close> returns \<open>{alreadyCurrent: true}\<close>, and all it has
  done to the world since the listing is to remove its own lock file: the state file is
  untouched, and the registry reads back as the same document (same history, same version
  records).
\<close>

theorem applyVersion_already_current:
  assumes "lawful rt"
      and "lock_loop 0 60 100 (statePath cfg @ ''.publish.lock'') w = (Inr True, w1)"
      and "listAvailableVersions cfg ADMIN_PLATFORM w1 = (Inr available, w2)"
      and "V \<in> set available"
      and "readState rt cfg w2 = (Inr st, w3)"
      and "currentVersion st = V"
  shows "applyVersion rt cfg V action w
           = (Inr \<lparr>alreadyCurrent = True\<rparr>, file_rm (statePath cfg @ ''.publish.lock'') w2)
       \<and> files (file_rm (statePath cfg @ ''.publish.lock'') w2) (statePath cfg)
           = files w2 (statePath cfg)
       \<and> readState rt cfg (file_rm (statePath cfg @ ''.publish.lock'') w2)
           = (Inr st, file_rm (statePath cfg @ ''.publish.lock'') w2)"
proof -
  let ?lock = "statePath cfg @ ''.publish.lock''"
  have "all_digits V" using assms(3,4) by (rule listAvailableVersions_digits)
  then have "currentVersion st \<noteq> []" using assms(6) all_digits_nonempty by simp
  from readState_current_set[OF assms(1,5) this]
  have w3: "w3 = w2" and present: "files w2 (statePath cfg) \<noteq> None" by simp_all
  have locked: "apply_locked rt cfg V action w1 = (Inr \<lparr>alreadyCurrent = True\<rparr>, w2)"
    using assms(3,4,5,6) w3 by (simp add: apply_locked_def)
  have a: "applyVersion rt cfg V action w = (Inr \<lparr>alreadyCurrent = True\<rparr>, file_rm ?lock w2)"
    using assms(2) locked by (simp add: applyVersion_def withFileLock_def)
  have b: "files (file_rm ?lock w2) (statePath cfg) = files w2 (statePath cfg)"
    using lock_neq by (rule file_rm_other)
  obtain content where c: "files w2 (statePath cfg) = Some content" using present by blast
  have "readState rt cfg (file_rm ?lock w2) = (fst (readState rt cfg w2), file_rm ?lock w2)"
    using c lock_neq by (rule readState_file_rm)
  then have "readState rt cfg (file_rm ?lock w2) = (Inr st, file_rm ?lock w2)"
    using assms(5) by simp
  with a b show ?thesis by simp
qed


theorem applyVersion_already_current_witness:
  "fst (applyVersion node_runtime cfg_local ''100'' ''publish'' world_published)
     = Inr \<lparr>alreadyCurrent = True\<rparr>
   \<and> files (snd (applyVersion node_runtime cfg_local ''100'' ''publish'' world_published))
       (statePath cfg_local) = files world_published (statePath cfg_local)
   \<and> fst (readState node_runtime cfg_local
         (snd (applyVersion node_runtime cfg_local ''100'' ''publish'' world_published)))
     = Inr doc_100"
proof -
  let ?w1 = "world_published\<lparr>files := (files world_published)(statePath cfg_local @ ''.publish.lock'' \<mapsto> [])\<rparr>"
  have free: "files world_published (statePath cfg_local @ ''.publish.lock'') = None"
    by (simp add: world_published_def world_empty_def)
  have h2: "lock_loop 0 60 100 (statePath cfg_local @ ''.publish.lock'') world_published
      = (Inr True, ?w1)"
    using free by (intro lock_loop_free) simp_all
  have h3: "listAvailableVersions cfg_local ADMIN_PLATFORM ?w1 = (Inr [''100''], ?w1)"
    by (simp add: listAvailableVersions_local world_published_def world_empty_def cdn_versions)
  have h4: "''100'' \<in> set [''100'']" by simp
  have h5: "readState node_runtime cfg_local ?w1 = (Inr doc_100, ?w1)"
    by (simp add: readState_present world_published_def node_runtime_parse_written)
  have h6: "currentVersion doc_100 = ''100''" by (simp add: doc_100_def)
  have rm: "files (file_rm (statePath cfg_local @ ''.publish.lock'') ?w1) (statePath cfg_local)
      = files world_published (statePath cfg_local)"
    by (simp add: file_rm_def)
  show ?thesis
    using applyVersion_already_current [OF node_runtime_lawful h2 h3 h4 h5 h6, of "''publish''"] rm
    by simp
qed

text \<open>
  C8: when each of the 60 attempts to create the lock file exclusively, 100 ms apart, finds
  it existing, \<open>applyVersion\<close> fails with the error whose code is \<open>LOCK_BUSY\<close>; this error
  differs from \<open>VERSION_NOT_FOUND\<close>, with which \<open>applyVersion\<close> fails when it holds the lock
  and the storage listing lacks the version.
\<close>

theorem applyVersion_lock_busy:
  "((\<forall>k<60. files ((sleep 100 ^^ k) w) (statePath cfg @ ''.publish.lock'') \<noteq> None)
      \<longrightarrow> applyVersion rt cfg V action w = (Inl LOCK_BUSY, (sleep 100 ^^ 60) w))
   \<and> code LOCK_BUSY = ''LOCK_BUSY''
   \<and> code VERSION_NOT_FOUND = ''VERSION_NOT_FOUND''
   \<and> LOCK_BUSY \<noteq> VERSION_NOT_FOUND
   \<and> (lock_loop 0 60 100 (statePath cfg @ ''.publish.lock'') w = (Inr True, w1)
        \<and> listAvailableVersions cfg ADMIN_PLATFORM w1 = (Inr available, w2)
        \<and> V \<notin> set available
      \<longrightarrow> applyVersion rt cfg V action w
            = (Inl VERSION_NOT_FOUND, file_rm (statePath cfg @ ''.publish.lock'') w2))"
proof (intro conjI impI)
  assume "\<forall>k<60. files ((sleep 100 ^^ k) w) (statePath cfg @ ''.publish.lock'') \<noteq> None"
  then have "lock_loop 0 60 100 (statePath cfg @ ''.publish.lock'') w
      = (Inr False, (sleep 100 ^^ 60) w)"
    using lock_loop_busy[of 60 60 0 100 w "statePath cfg @ ''.publish.lock''"] by simp
  then show "applyVersion rt cfg V action w = (Inl LOCK_BUSY, (sleep 100 ^^ 60) w)"
    by (simp add: applyVersion_def withFileLock_def LOCK_TIMEOUT_def)
next
  show "code LOCK_BUSY = ''LOCK_BUSY''" by (simp add: LOCK_BUSY_def)
next
  show "code VERSION_NOT_FOUND = ''VERSION_NOT_FOUND''" by (simp add: VERSION_NOT_FOUND_def)
next
  show "LOCK_BUSY \<noteq> VERSION_NOT_FOUND" by (simp add: LOCK_BUSY_def VERSION_NOT_FOUND_def)
next
  assume a: "lock_loop 0 60 100 (statePath cfg @ ''.publish.lock'') w = (Inr True, w1)
        \<and> listAvailableVersions cfg ADMIN_PLATFORM w1 = (Inr available, w2)
        \<and> V \<notin> set available"
  then have "apply_locked rt cfg V action w1 = (Inl VERSION_NOT_FOUND, w2)"
    by (simp add: apply_locked_def)
  then show "applyVersion rt cfg V action w
            = (Inl VERSION_NOT_FOUND, file_rm (statePath cfg @ ''.publish.lock'') w2)"
    using a by (simp add: applyVersion_def withFileLock_def VERSION_NOT_FOUND_def)
qed


theorem applyVersion_lock_busy_witness:
  "fst (applyVersion node_runtime cfg_local ''100'' ''publish'' world_locked) = Inl LOCK_BUSY
   \<and> length (slept (snd (applyVersion node_runtime cfg_local ''100'' ''publish'' world_locked))) = 60
   \<and> fst (applyVersion node_runtime cfg_local ''999'' ''switch'' world_published)
       = Inl VERSION_NOT_FOUND"
proof -
  let ?w1 = "world_published\<lparr>files := (files world_published)(statePath cfg_local @ ''.publish.lock'' \<mapsto> [])\<rparr>"
  have st: "others world_locked = (\<lambda>n fs. fs)"
    by (simp add: world_locked_def world_published_def world_empty_def)
  have held: "\<forall>k<60. files ((sleep 100 ^^ k) world_locked) (statePath cfg_local @ ''.publish.lock'') \<noteq> None"
    using sleep_static[OF st] by (simp add: world_locked_def lock_path_def)
  have len: "length (slept ((sleep d ^^ k) w)) = length (slept w) + k" for d k w
    by (induction k) (simp_all add: sleep_def)
  have free: "files world_published (statePath cfg_local @ ''.publish.lock'') = None"
    by (simp add: world_published_def world_empty_def)
  have h2: "lock_loop 0 60 100 (statePath cfg_local @ ''.publish.lock'') world_published
      = (Inr True, ?w1)"
    using free by (intro lock_loop_free) simp_all
  have h3: "listAvailableVersions cfg_local ADMIN_PLATFORM ?w1 = (Inr [''100''], ?w1)"
    by (simp add: listAvailableVersions_local world_published_def world_empty_def cdn_versions)
  have h4: "''999'' \<notin> set [''100'']" by simp
  have s0: "slept world_locked = []"
    by (simp add: world_locked_def world_published_def world_empty_def)
  show ?thesis
    using applyVersion_lock_busy [of world_locked cfg_local node_runtime "''100''" "''publish''"]
      applyVersion_lock_busy [of world_published cfg_local node_runtime "''999''" "''switch''"
        ?w1 "[''100'']" ?w1]
      held h2 h3 h4 len[where d=100 and k=60 and w=world_locked] s0
    by simp
qed

text \<open>
  C5: \<open>readState\<close> always returns a document, never an error; with a runtime that honours
  the JSON contract, it returns the empty default document
  \<open>{currentVersion: "", versions: [], history: []}\<close> when the state file is absent and when
  its content is not parsable.
\<close>

theorem readState_self_heals:
  "(\<exists>st. fst (readState rt cfg w) = Inr st) \<and>
   (lawful rt \<and>
    (files w (statePath cfg) = None
     \<or> (\<exists>content. files w (statePath cfg) = Some content \<and> JSON_parse rt content = None))
    \<longrightarrow> fst (readState rt cfg w) = Inr \<lparr>currentVersion = [], versions = [], history = []\<rparr>)"
proof (intro conjI impI)
  show "\<exists>st. fst (readState rt cfg w) = Inr st"
    by (rule readState_returns)
next
  assume a: "lawful rt \<and>
    (files w (statePath cfg) = None
     \<or> (\<exists>content. files w (statePath cfg) = Some content \<and> JSON_parse rt content = None))"
  show "fst (readState rt cfg w) = Inr \<lparr>currentVersion = [], versions = [], history = []\<rparr>"
  proof (cases "files w (statePath cfg)")
    case None
    with a show ?thesis by (simp add: readState_absent_default)
  next
    case (Some content)
    with a have "JSON_parse rt content = None" by simp
    with Some show ?thesis by (rule readState_unparsable_default)
  qed
qed


theorem readState_self_heals_witness:
  "lawful node_runtime
   \<and> files world_empty (statePath cfg_local) = None
   \<and> fst (readState node_runtime cfg_local world_empty)
       = Inr \<lparr>currentVersion = [], versions = [], history = []\<rparr>
   \<and> files world_corrupt (statePath cfg_local) = Some ''{\"currentVersion\":\"10''
   \<and> JSON_parse node_runtime ''{\"currentVersion\":\"10'' = None
   \<and> fst (readState node_runtime cfg_local world_corrupt)
       = Inr \<lparr>currentVersion = [], versions = [], history = []\<rparr>"
proof -
  have a: "files world_empty (statePath cfg_local) = None"
    by (simp add: world_empty_def)
  have b: "files world_corrupt (statePath cfg_local) = Some ''{\"currentVersion\":\"10''"
    by (simp add: world_corrupt_def)
  have "read_json ''{\"currentVersion\":\"10'' = None" by code_simp
  then have c: "JSON_parse node_runtime ''{\"currentVersion\":\"10'' = None"
    by (simp add: node_runtime_def)
  show ?thesis
    using readState_self_heals [of node_runtime cfg_local world_empty]
      readState_self_heals [of node_runtime cfg_local world_corrupt]
      node_runtime_lawful a b c
    by simp
qed

text \<open>
  C4: with a runtime that honours the JSON contract, for every registry document \<open>D\<close> (a
  string \<open>currentVersion\<close>, arrays \<open>versions\<close> and \<open>history\<close>), \<open>atomicWriteState(D)\<close> writes
  the serialisation of \<open>D\<close> to \<open>statePath + '.tmp'\<close> and renames that file over the state
  file, and \<open>readState()\<close> then returns a document equal to \<open>D\<close>.
\<close>

theorem write_then_read:
  assumes "lawful rt"
  shows "\<exists>w1 w2.
           atomicWriteState rt cfg (state_json D) w = (Inr (), w2)
         \<and> file_writeFile (statePath cfg @ ''.tmp'')
              (JSON_stringify rt (state_json D) @ [CHR 0x0A]) w = (Inr (), w1)
         \<and> file_rename (statePath cfg @ ''.tmp'') (statePath cfg) w1 = (Inr (), w2)
         \<and> files w2 (statePath cfg) = Some (JSON_stringify rt (state_json D) @ [CHR 0x0A])
         \<and> files w2 (statePath cfg @ ''.tmp'') = None
         \<and> readState rt cfg w2 = (Inr D, w2)"
proof -
  have p: "JSON_parse rt (JSON_stringify rt (state_json D) @ [CHR 0x0A]) = Some (state_json D)"
    using assms by (simp add: lawful_def)
  show ?thesis
    by (simp add: atomicWriteState_eq written_def file_writeFile_def file_rename_def
        readState_present p tmp_neq)
qed


theorem write_then_read_witness:
  "lawful node_runtime
   \<and> fst (atomicWriteState node_runtime cfg_local (state_json doc_100) world_empty) = Inr ()
   \<and> files (snd (atomicWriteState node_runtime cfg_local (state_json doc_100) world_empty))
        (statePath cfg_local) = Some (show_json (state_json doc_100) @ [CHR 0x0A])
   \<and> fst (readState node_runtime cfg_local
        (snd (atomicWriteState node_runtime cfg_local (state_json doc_100) world_empty)))
       = Inr doc_100"
  using write_then_read [OF node_runtime_lawful, of cfg_local doc_100 world_empty]
    node_runtime_lawful
  by (auto simp: node_runtime_def)

text \<open>
  C10: when \<open>setCurrentVersion(version, action)\<close> finds no record of the version, it appends
  a new record \<open>{version, uploadedAt, publishedAt}\<close> whose two timestamps are the next two
  readings of the clock, although the version was never uploaded through the registry.
\<close>

theorem setCurrentVersion_unknown_version:
  assumes "lawful rt"
      and "readState rt cfg w = (Inr st, w1)"
      and "find_version (versions st) version = Inr None"
  shows "\<exists>w2. setCurrentVersion rt cfg version action w = (Inr (), w2)
         \<and> readState rt cfg w2 =
             (Inr \<lparr>currentVersion = version,
                   versions = versions st @
                     [JObj [(''version'', JStr version),
                            (''uploadedAt'', JStr (clock w (ticks w))),
                            (''publishedAt'', JStr (clock w (Suc (ticks w))))]],
                   history = history st @
                     [JObj [(''action'', JStr action), (''version'', JStr version),
                            (''at'', JStr (clock w (Suc (Suc (ticks w)))))]]\<rparr>, w2)"
proof -
  have c: "clock w1 = clock w" "ticks w1 = ticks w"
    using assms(2)
    by (cases "files w (statePath cfg)"; simp add: readState_absent readState_present; fastforce)+
  let ?doc = "JObj [(''currentVersion'', JStr version),
                     (''versions'', JArr (versions st @
                     [JObj [(''version'', JStr version),
                            (''uploadedAt'', JStr (clock w (ticks w))),
                            (''publishedAt'', JStr (clock w (Suc (ticks w))))]])),
                     (''history'', JArr (history st @
                        [JObj [(''action'', JStr action), (''version'', JStr version),
                               (''at'', JStr (clock w (Suc (Suc (ticks w)))))]]))]"
  have n: "state_json (normalizeState ?doc) = ?doc"
    by (simp add: normalizeState_def state_json_def opt_prop_def)
  have p: "JSON_parse rt (written rt ?doc) = Some ?doc"
    using lawful_written[OF assms(1), of ?doc] n by simp
  show ?thesis
    using assms(2,3) c
    by (simp add: setCurrentVersion_def next_versions_def now_def atomicWriteState_eq
        readState_present p normalizeState_def opt_prop_def)
qed


theorem setCurrentVersion_unknown_version_witness:
  "lawful node_runtime
   \<and> readState node_runtime cfg_local world_published = (Inr doc_100, world_published)
   \<and> find_version (versions doc_100) ''200'' = Inr None
   \<and> fst (setCurrentVersion node_runtime cfg_local ''200'' ''switch'' world_published) = Inr ()
   \<and> fst (readState node_runtime cfg_local
        (snd (setCurrentVersion node_runtime cfg_local ''200'' ''switch'' world_published)))
       = Inr \<lparr>currentVersion = ''200'',
               versions = versions doc_100 @
                 [JObj [(''version'', JStr ''200''), (''uploadedAt'', JStr ''T0''),
                        (''publishedAt'', JStr ''T1'')]],
               history = history doc_100 @
                 [JObj [(''action'', JStr ''switch''), (''version'', JStr ''200''),
                        (''at'', JStr ''T2'')]]\<rparr>"
proof -
  have f: "find_version (versions doc_100) ''200'' = Inr None" by code_simp
  have c: "clock world_published 0 = ''T0''" "clock world_published (Suc 0) = ''T1''"
    "clock world_published (Suc (Suc 0)) = ''T2''" "ticks world_published = 0"
  proof -
    have "show_nat 0 = ''0''" "show_nat (Suc 0) = ''1''" "show_nat (Suc (Suc 0)) = ''2''"
      by code_simp+
    then show "clock world_published 0 = ''T0''" "clock world_published (Suc 0) = ''T1''"
      "clock world_published (Suc (Suc 0)) = ''T2''" "ticks world_published = 0"
      by (simp_all add: world_published_def world_empty_def)
  qed
  show ?thesis
    using setCurrentVersion_unknown_version [OF node_runtime_lawful readState_published f,
        of "''switch''"] node_runtime_lawful readState_published f c
    by auto
qed

section \<open>The invariant of the registry\<close>

lemma version_is_not_null:
  "r \<noteq> JNull \<Longrightarrow> version_is r v = Inr (opt_prop r ''version'' = Some (JStr v))"
  by (cases r) (simp_all add: version_is_def opt_prop_def)

lemma set_prop_not_null: "r \<noteq> JNull \<Longrightarrow> set_prop r k x \<noteq> JNull"
  by (cases r) (simp_all add: set_prop_def)

lemma set_prop_other:
  "k \<noteq> k' \<Longrightarrow> opt_prop (set_prop r k x) k' = opt_prop r k'"
  by (cases r) (simp_all add: set_prop_def opt_prop_def update_conv')

lemma has_record_Cons:
  "has_record v (r # vs) \<longleftrightarrow> opt_prop r ''version'' = Some (JStr v) \<or> has_record v vs"
  by (simp add: has_record_def)

lemma has_record_Nil [simp]: "\<not> has_record v []"
  by (simp add: has_record_def)

lemma has_record_append:
  "has_record v (vs @ us) \<longleftrightarrow> has_record v vs \<or> has_record v us"
  by (simp add: has_record_def list_ex_iff) blast

lemma find_version_ok:
  "no_nulls vs \<Longrightarrow>
   \<exists>r. find_version vs v = Inr r \<and> (r = None \<longleftrightarrow> \<not> has_record v vs)
      \<and> (\<forall>i. r = Some i \<longrightarrow> i < length vs \<and> opt_prop (vs ! i) ''version'' = Some (JStr v))"
proof (induction vs)
  case Nil
  then show ?case by simp
next
  case (Cons a vs)
  then have a: "a \<noteq> JNull" and nn: "no_nulls vs" by (simp_all add: no_nulls_def)
  from Cons.IH[OF nn] obtain r where r: "find_version vs v = Inr r"
      "r = None \<longleftrightarrow> \<not> has_record v vs"
      "\<forall>i. r = Some i \<longrightarrow> i < length vs \<and> opt_prop (vs ! i) ''version'' = Some (JStr v)"
    by blast
  show ?case
  proof (cases "opt_prop a ''version'' = Some (JStr v)")
    case True
    then show ?thesis by (simp add: version_is_not_null[OF a] has_record_Cons)
  next
    case False
    then show ?thesis using r
      by (cases r) (simp_all add: version_is_not_null[OF a] has_record_Cons)
  qed
qed

lemma no_nulls_update:
  "no_nulls vs \<Longrightarrow> x \<noteq> JNull \<Longrightarrow> no_nulls (vs[i := x])"
  unfolding no_nulls_def by (metis insertE set_update_subset_insert subsetD)

lemma no_nulls_append: "no_nulls (vs @ us) \<longleftrightarrow> no_nulls vs \<and> no_nulls us"
  by (auto simp: no_nulls_def)

lemma has_record_update:
  assumes "has_record c vs" and "i < length vs"
      and "opt_prop x ''version'' = opt_prop (vs ! i) ''version''"
  shows "has_record c (vs[i := x])"
proof -
  from assms(1) obtain j where j: "j < length vs" "opt_prop (vs ! j) ''version'' = Some (JStr c)"
    by (auto simp: has_record_def list_ex_iff in_set_conv_nth)
  have "opt_prop (vs[i := x] ! j) ''version'' = Some (JStr c)"
    using j assms(2,3) by (cases "i = j") simp_all
  moreover have "vs[i := x] ! j \<in> set (vs[i := x])" using j(1) by simp
  ultimately show ?thesis unfolding has_record_def list_ex_iff by blast
qed


lemma write_read:
  assumes "lawful rt"
  shows "\<exists>w'. atomicWriteState rt cfg doc w = (Inr (), w')
           \<and> readState rt cfg w' = (Inr (normalizeState doc), w')"
proof -
  let ?w' = "w\<lparr>files := (files w)(statePath cfg @ ''.tmp'' := None,
      statePath cfg \<mapsto> written rt doc)\<rparr>"
  have "readState rt cfg ?w' = (Inr (normalizeState doc), ?w')"
    by (simp add: readState_present lawful_written[OF assms])
  then show ?thesis using atomicWriteState_eq by blast
qed

lemma upsertVersion_ok:
  assumes "no_nulls vs"
  shows "\<exists>vs' ow w'. upsertVersion vs v w = (Inr (vs', ow), w') \<and> no_nulls vs'
           \<and> (\<forall>c. has_record c vs \<longrightarrow> has_record c vs')"
proof -
  obtain t w1 where n: "now w = (t, w1)" by (cases "now w")
  from find_version_ok[OF assms, of v] obtain r where r: "find_version vs v = Inr r"
      "\<forall>i. r = Some i \<longrightarrow> i < length vs \<and> opt_prop (vs ! i) ''version'' = Some (JStr v)"
    by blast
  show ?thesis
  proof (cases r)
    case None
    have "upsertVersion vs v w
        = (Inr (vs @ [JObj [(''version'', JStr v), (''uploadedAt'', JStr t)]], False), w1)"
      using n r(1) None by (simp add: upsertVersion_def)
    moreover have "no_nulls (vs @ [JObj [(''version'', JStr v), (''uploadedAt'', JStr t)]])"
      using assms by (simp add: no_nulls_append) (simp add: no_nulls_def)
    ultimately show ?thesis by (metis has_record_append)
  next
    case (Some i)
    then have i: "i < length vs" using r(2) by simp
    let ?x = "set_prop (vs ! i) ''uploadedAt'' (JStr t)"
    have nn: "vs ! i \<noteq> JNull" using assms i by (simp add: no_nulls_def)
    have "upsertVersion vs v w = (Inr (vs[i := ?x], True), w1)"
      using n r(1) Some by (simp add: upsertVersion_def)
    moreover have "no_nulls (vs[i := ?x])"
      using assms set_prop_not_null[OF nn] by (rule no_nulls_update)
    moreover have "\<forall>c. has_record c vs \<longrightarrow> has_record c (vs[i := ?x])"
      using i by (auto intro!: has_record_update simp: set_prop_other)
    ultimately show ?thesis by blast
  qed
qed

lemma publish_records_ok:
  "no_nulls vs \<Longrightarrow>
   \<exists>vs' w'. publish_records vs v w = (Inr vs', w') \<and> files w' = files w \<and> no_nulls vs'
      \<and> (\<forall>c. has_record c vs \<longrightarrow> has_record c vs')"
proof (induction vs arbitrary: w)
  case Nil
  then show ?case by simp
next
  case (Cons a vs)
  then have a: "a \<noteq> JNull" and nn: "no_nulls vs" by (simp_all add: no_nulls_def)
  show ?case
  proof (cases "opt_prop a ''version'' = Some (JStr v)")
    case True
    obtain t w1 where n: "now w = (t, w1)" by (cases "now w")
    then have f1: "files w1 = files w" by (auto simp: now_def)
    from Cons.IH[OF nn, of w1] obtain vs' w' where
      p: "publish_records vs v w1 = (Inr vs', w')" "files w' = files w1" "no_nulls vs'"
         "\<forall>c. has_record c vs \<longrightarrow> has_record c vs'" by blast
    let ?x = "set_prop a ''publishedAt'' (JStr t)"
    have "publish_records (a # vs) v w = (Inr (?x # vs'), w')"
      using True n p(1) by (simp add: version_is_not_null[OF a])
    moreover have "no_nulls (?x # vs')"
      using p(3) set_prop_not_null[OF a] by (simp add: no_nulls_def)
    moreover have "\<forall>c. has_record c (a # vs) \<longrightarrow> has_record c (?x # vs')"
      using p(4) by (simp add: has_record_Cons set_prop_other)
    ultimately show ?thesis using p(2) f1 by simp
  next
    case False
    from Cons.IH[OF nn, of w] obtain vs' w' where
      p: "publish_records vs v w = (Inr vs', w')" "files w' = files w" "no_nulls vs'"
         "\<forall>c. has_record c vs \<longrightarrow> has_record c vs'" by blast
    have "publish_records (a # vs) v w = (Inr (a # vs'), w')"
      using False p(1) by (simp add: version_is_not_null[OF a])
    moreover have "no_nulls (a # vs')" using p(3) a by (simp add: no_nulls_def)
    moreover have "\<forall>c. has_record c (a # vs) \<longrightarrow> has_record c (a # vs')"
      using p(4) by (simp add: has_record_Cons)
    ultimately show ?thesis using p(2) by simp
  qed
qed

lemma next_versions_ok:
  assumes "no_nulls vs"
  shows "\<exists>vs' w'. next_versions vs v w = (Inr vs', w') \<and> files w' = files w \<and> no_nulls vs'
           \<and> has_record v vs'"
proof -
  from find_version_ok[OF assms, of v] obtain r where r: "find_version vs v = Inr r"
      "r = None \<longleftrightarrow> \<not> has_record v vs" by blast
  show ?thesis
  proof (cases r)
    case None
    obtain t1 w1 where n1: "now w = (t1, w1)" by (cases "now w")
    obtain t2 w2 where n2: "now w1 = (t2, w2)" by (cases "now w1")
    have f: "files w2 = files w" using n1 n2 by (auto simp: now_def)
    let ?new = "JObj [(''version'', JStr v), (''uploadedAt'', JStr t1), (''publishedAt'', JStr t2)]"
    have "next_versions vs v w = (Inr (vs @ [?new]), w2)"
      using r(1) None n1 n2 by (simp add: next_versions_def)
    moreover have "no_nulls (vs @ [?new])"
      using assms by (simp add: no_nulls_append) (simp add: no_nulls_def)
    moreover have "has_record v (vs @ [?new])"
      by (simp add: has_record_append) (simp add: has_record_def opt_prop_def)
    ultimately show ?thesis using f by simp
  next
    case (Some i)
    then have h: "has_record v vs" using r(2) by simp
    from publish_records_ok[OF assms, of v w] obtain vs' w' where
      p: "publish_records vs v w = (Inr vs', w')" "files w' = files w" "no_nulls vs'"
         "\<forall>c. has_record c vs \<longrightarrow> has_record c vs'" by blast
    have "next_versions vs v w = (Inr vs', w')"
      using r(1) Some p(1) by (simp add: next_versions_def)
    then show ?thesis using p h by simp
  qed
qed


lemma recordUpload_inv:
  assumes "lawful rt" and "readState rt cfg w = (Inr st, w1)" and "registry_inv st"
  shows "\<exists>ow w' st'. recordUpload rt cfg v w = (Inr ow, w')
           \<and> readState rt cfg w' = (Inr st', w') \<and> registry_inv st'"
proof -
  have nn: "no_nulls (versions st)" using assms(3) by (simp add: registry_inv_def)
  from upsertVersion_ok[OF nn, of v w1] obtain vs' ow w2 where
    u: "upsertVersion (versions st) v w1 = (Inr (vs', ow), w2)" "no_nulls vs'"
       "\<forall>c. has_record c (versions st) \<longrightarrow> has_record c vs'" by blast
  obtain t w3 where n: "now w2 = (t, w3)" by (cases "now w2")
  let ?hist = "history st @
               [JObj [(''action'', JStr (if ow then ''upload_overwrite'' else ''upload'')),
                      (''version'', JStr v), (''at'', JStr t)]]"
  let ?st' = "st\<lparr>versions := vs', history := ?hist\<rparr>"
  from write_read[OF assms(1), of cfg "state_json ?st'" w3] obtain w' where
    wr: "atomicWriteState rt cfg (state_json ?st') w3 = (Inr (), w')"
        "readState rt cfg w' = (Inr ?st', w')" by auto
  have "recordUpload rt cfg v w = (Inr ow, w')"
    using assms(2) u(1) n wr(1) by (simp add: recordUpload_def Let_def)
  moreover have "registry_inv ?st'"
    using assms(3) u(2,3) by (auto simp: registry_inv_def current_known_def)
  ultimately show ?thesis using wr(2) by blast
qed

lemma setCurrentVersion_inv:
  assumes "lawful rt" and "readState rt cfg w = (Inr st, w1)" and "registry_inv st"
  shows "\<exists>w' st'. setCurrentVersion rt cfg v a w = (Inr (), w')
           \<and> readState rt cfg w' = (Inr st', w') \<and> registry_inv st'"
proof -
  have nn: "no_nulls (versions st)" using assms(3) by (simp add: registry_inv_def)
  from next_versions_ok[OF nn, of v w1] obtain vs' w2 where
    u: "next_versions (versions st) v w1 = (Inr vs', w2)" "no_nulls vs'" "has_record v vs'"
    by blast
  obtain t w3 where n: "now w2 = (t, w3)" by (cases "now w2")
  let ?doc = "JObj [(''currentVersion'', JStr v), (''versions'', JArr vs'),
                     (''history'', JArr (history st @
                        [JObj [(''action'', JStr a), (''version'', JStr v), (''at'', JStr t)]]))]"
  from write_read[OF assms(1), of cfg ?doc w3] obtain w' where
    wr: "atomicWriteState rt cfg ?doc w3 = (Inr (), w')"
        "readState rt cfg w' = (Inr (normalizeState ?doc), w')" by auto
  have "setCurrentVersion rt cfg v a w = (Inr (), w')"
    using assms(2) u(1) n wr(1) by (simp add: setCurrentVersion_def Let_def)
  moreover have "registry_inv (normalizeState ?doc)"
    using u(2,3) by (simp add: registry_inv_def current_known_def normalizeState_def opt_prop_def)
  ultimately show ?thesis using wr(2) by blast
qed

lemma run_ops_inv:
  assumes "lawful rt"
  shows "readState rt cfg w = (Inr st, w1) \<Longrightarrow> registry_inv st \<Longrightarrow>
         \<exists>w' st' w1'. run_ops rt cfg ops w = (Inr (), w')
            \<and> readState rt cfg w' = (Inr st', w1') \<and> registry_inv st'"
proof (induction ops arbitrary: w st w1)
  case Nil
  then show ?case by auto
next
  case (Cons op ops)
  show ?case
  proof (cases op)
    case (RecordUpload v)
    from recordUpload_inv[OF assms Cons.prems, of v] obtain ow w' st' where
      r: "recordUpload rt cfg v w = (Inr ow, w')" "readState rt cfg w' = (Inr st', w')"
         "registry_inv st'" by blast
    from Cons.IH[OF r(2,3)] show ?thesis using r(1) RecordUpload by simp
  next
    case (SetCurrentVersion v a)
    from setCurrentVersion_inv[OF assms Cons.prems, of v a] obtain w' st' where
      r: "setCurrentVersion rt cfg v a w = (Inr (), w')" "readState rt cfg w' = (Inr st', w')"
         "registry_inv st'" by blast
    from Cons.IH[OF r(2,3)] show ?thesis using r(1) SetCurrentVersion by simp
  qed
qed

text \<open>
  C9: starting from a registry that reads as the default empty document, every sequence of
  \<open>recordUpload\<close> and \<open>setCurrentVersion\<close> calls runs without an error, and afterwards the
  registry's \<open>currentVersion\<close> is the empty string or the \<open>version\<close> of some record of
  \<open>versions\<close>.
\<close>

theorem current_version_is_registered:
  assumes "lawful rt"
      and "fst (readState rt cfg w) = Inr \<lparr>currentVersion = [], versions = [], history = []\<rparr>"
  shows "\<exists>w' st. run_ops rt cfg ops w = (Inr (), w')
           \<and> fst (readState rt cfg w') = Inr st \<and> current_known st"
proof -
  let ?d = "\<lparr>currentVersion = [], versions = [], history = []\<rparr>"
  obtain w1 where r: "readState rt cfg w = (Inr ?d, w1)"
    using assms(2) by (cases "readState rt cfg w") auto
  have "registry_inv ?d" by (simp add: registry_inv_def no_nulls_def current_known_def)
  from run_ops_inv[OF assms(1) r this, of ops] show ?thesis
    by (auto simp: registry_inv_def)
qed


theorem current_version_is_registered_witness:
  "lawful node_runtime
   \<and> fst (readState node_runtime cfg_local world_empty)
       = Inr \<lparr>currentVersion = [], versions = [], history = []\<rparr>
   \<and> fst (run_ops node_runtime cfg_local
          [RecordUpload ''100'', SetCurrentVersion ''100'' ''publish''] world_empty) = Inr ()
   \<and> (\<exists>st. fst (readState node_runtime cfg_local
          (snd (run_ops node_runtime cfg_local
             [RecordUpload ''100'', SetCurrentVersion ''100'' ''publish''] world_empty))) = Inr st
        \<and> current_known st \<and> currentVersion st = ''100'')"
proof -
  have h: "fst (readState node_runtime cfg_local world_empty)
       = Inr \<lparr>currentVersion = [], versions = [], history = []\<rparr>"
    using node_runtime_lawful by (simp add: readState_absent_default world_empty_def)
  have e: "fst (readState node_runtime cfg_local
     (snd (run_ops node_runtime cfg_local
        [RecordUpload ''100'', SetCurrentVersion ''100'' ''publish''] world_empty)))
    = Inr \<lparr>currentVersion = ''100'',
        versions = [JObj [(''version'', JStr ''100''), (''uploadedAt'', JStr ''T0''),
                          (''publishedAt'', JStr ''T2'')]],
        history = [JObj [(''action'', JStr ''upload''), (''version'', JStr ''100''),
                         (''at'', JStr ''T1'')],
                   JObj [(''action'', JStr ''publish''), (''version'', JStr ''100''),
                         (''at'', JStr ''T3'')]]\<rparr>"
    by code_simp
  show ?thesis
    using current_version_is_registered [OF node_runtime_lawful h,
        of "[RecordUpload ''100'', SetCurrentVersion ''100'' ''publish'']"]
      node_runtime_lawful h e
    by auto
qed

section \<open>Properties of the storage sync\<close>











































end
